theory Spec2Isabelle
  imports Main
begin

section \<open>The dependency graph of \<open>clad/Differentiator/Graph.h\<close>\<close>

text \<open>
  The class \<open>clad::Graph<T>\<close> keeps five private members. They become the fields of a
  record, with the names of the source:

  \<^item> \<open>nodes\<close>, a \<open>std::vector<T>\<close>: a list, the index of a value being its id;
  \<^item> \<open>nodeMap\<close>, a \<open>std::unordered_map<T, std::pair<bool, int>>\<close>: a partial map from
    values to the pair (still present, id);
  \<^item> \<open>adjList\<close> and \<open>revAdjList\<close>, \<open>std::unordered_map<size_t, std::set<size_t>>\<close>:
    both are only ever accessed through \<open>operator[]\<close>, which creates an empty set for
    an absent key, so an absent key and an empty set cannot be told apart and the map is
    a total function into sets. A \<open>std::set<size_t>\<close> is a list of ids, iterated from
    the front; \<open>insert\<close> is \<open>insort_insert\<close> (ascending, no duplicate), \<open>erase\<close> is
    \<open>removeAll\<close>, \<open>clear\<close> gives \<open>[]\<close>;
  \<^item> \<open>sources\<close>, a \<open>std::set<size_t>\<close>: a list of ids of the same kind.

  Ids are natural numbers: the source stores \<open>nodes.size()\<close> (a \<open>size_t\<close>) in the
  \<open>int\<close> of the pair and reads it back as \<open>size_t\<close>, which is the identity as long as
  the graph has fewer than \<open>2^31\<close> nodes.
\<close>

record 'a graph =
  nodes :: "'a list"
  nodeMap :: "'a \<rightharpoonup> bool \<times> nat"
  adjList :: "nat \<Rightarrow> nat list"
  revAdjList :: "nat \<Rightarrow> nat list"
  sources :: "nat list"

text \<open>\<open>Graph() = default\<close>: every container is empty.\<close>

definition empty_graph :: "'a graph" where
  "empty_graph =
     \<lparr>nodes = [], nodeMap = Map.empty, adjList = (\<lambda>_. []), revAdjList = (\<lambda>_. []),
      sources = []\<rparr>"

text \<open>
  \<open>nodeMap[node]\<close>: the pair stored for \<open>node\<close>, and the value-initialised pair
  \<open>{false, 0}\<close> for a key that is absent.
\<close>

definition nodeMap_at :: "'a graph \<Rightarrow> 'a \<Rightarrow> bool \<times> nat" where
  "nodeMap_at g node = (case nodeMap g node of None \<Rightarrow> (False, 0) | Some p \<Rightarrow> p)"

subsection \<open>Node and edge lifecycle\<close>

definition addNode :: "'a \<Rightarrow> bool \<Rightarrow> 'a graph \<Rightarrow> 'a graph" where
  "addNode node isSource g =
     (case nodeMap g node of
        None \<Rightarrow>
          let nid = length (nodes g) in
          g\<lparr>nodes := nodes g @ [node],
            nodeMap := (nodeMap g)(node \<mapsto> (True, nid)),
            adjList := (adjList g)(nid := []),
            revAdjList := (revAdjList g)(nid := []),
            sources := (if isSource then insort_insert nid (sources g) else sources g)\<rparr>
      | Some (present, nid) \<Rightarrow>
          if present = False then g\<lparr>nodeMap := (nodeMap g)(node \<mapsto> (True, nid))\<rparr> else g)"

definition addEdge :: "'a \<Rightarrow> 'a \<Rightarrow> 'a graph \<Rightarrow> 'a graph" where
  "addEdge src dest g =
     (let g1 = addNode src False g;
          g2 = addNode dest False g1;
          srcId = snd (nodeMap_at g2 src);
          destId = snd (nodeMap_at g2 dest);
          adj = (adjList g2)(srcId := insort_insert destId (adjList g2 srcId));
          radj = (revAdjList g2)(destId := insort_insert srcId (revAdjList g2 destId))
      in g2\<lparr>adjList := adj, revAdjList := radj\<rparr>)"

text \<open>
  \<open>removeNode\<close>: the first loop runs over \<open>adjList[nid]\<close> and erases from the reverse
  sets, the second runs over \<open>revAdjList[nid]\<close> as the first loop left it and erases
  from the forward sets; neither loop changes the set it iterates.
\<close>

definition erase_from :: "nat \<Rightarrow> nat \<Rightarrow> (nat \<Rightarrow> nat list) \<Rightarrow> nat \<Rightarrow> nat list" where
  "erase_from nid k m = m(k := removeAll nid (m k))"

definition removeNode :: "'a \<Rightarrow> 'a graph \<Rightarrow> 'a graph" where
  "removeNode node g =
     (case nodeMap g node of
        None \<Rightarrow> g
      | Some (present, nid) \<Rightarrow>
          let nm = (nodeMap g)(node \<mapsto> (False, nid));
              radj1 = fold (erase_from nid) (adjList g nid) (revAdjList g);
              adj1 = (adjList g)(nid := []);
              adj2 = fold (erase_from nid) (radj1 nid) adj1;
              radj2 = radj1(nid := [])
          in g\<lparr>nodeMap := nm, adjList := adj2, revAdjList := radj2\<rparr>)"

subsection \<open>Queries\<close>

text \<open>
  \<open>getNodes\<close> reads \<open>nodeMap[node].first\<close> for every element of \<open>nodes\<close>. (On a key
  that is absent \<open>operator[]\<close> would also insert the default pair; lemma
  \<open>graph_state_nodes_known\<close> below shows that every element of \<open>nodes\<close> is a key.)
\<close>

definition getNodes :: "'a graph \<Rightarrow> 'a list" where
  "getNodes g = filter (\<lambda>node. fst (nodeMap_at g node)) (nodes g)"

definition isConnected :: "'a \<Rightarrow> 'a \<Rightarrow> 'a graph \<Rightarrow> bool" where
  "isConnected src dest g =
     (if nodeMap g src = None \<or> nodeMap g dest = None then False
      else let srcId = snd (nodeMap_at g src);
               destId = snd (nodeMap_at g dest)
           in destId \<in> set (adjList g srcId))"

subsection \<open>Reachability pruning\<close>

text \<open>
  The \<open>while\<close> loop of \<open>removeNonReachable\<close>: \<open>stack\<close> is a vector used from its back.
  Nothing in the loop bounds the number of iterations, so the loop is a partial function
  and not returning is \<open>None\<close>.
\<close>

definition push_unvisited :: "nat \<Rightarrow> nat list \<times> nat set \<Rightarrow> nat list \<times> nat set" where
  "push_unvisited dest st =
     (case st of (stack, visited) \<Rightarrow>
        if dest \<notin> visited then (stack @ [dest], insert dest visited) else (stack, visited))"

partial_function (option) reach_loop ::
  "(nat \<Rightarrow> nat list) \<Rightarrow> nat list \<times> nat set \<Rightarrow> nat set option" where
  "reach_loop adj st =
     (case st of (stack, visited) \<Rightarrow>
        if stack = [] then Some visited
        else reach_loop adj (fold push_unvisited (adj (last stack)) (butlast stack, visited)))"

text \<open>
  The last loop of \<open>removeNonReachable\<close> runs over the entries of \<open>nodeMap\<close>, in the
  order of the hash table, which the language leaves open: the order is the parameter
  \<open>ks\<close>, a list of the keys of \<open>nodeMap\<close>.
\<close>

definition remove_unvisited :: "nat set \<Rightarrow> 'a \<Rightarrow> 'a graph \<Rightarrow> 'a graph" where
  "remove_unvisited visited k g =
     (case nodeMap g k of
        None \<Rightarrow> g
      | Some (present, nid) \<Rightarrow> if present \<and> nid \<notin> visited then removeNode k g else g)"

definition removeNonReachable :: "'a list \<Rightarrow> 'a graph \<Rightarrow> 'a graph option" where
  "removeNonReachable ks g =
     (case reach_loop (adjList g) (sources g, set (sources g)) of
        None \<Rightarrow> None
      | Some visited \<Rightarrow> Some (fold (remove_unvisited visited) ks g))"

subsection \<open>Topological sort\<close>

text \<open>
  The recursive lambda \<open>dfs\<close> of \<open>topologicalSort\<close>, with the state it captures by
  reference (\<open>visited\<close>, \<open>res\<close>) passed and returned. The first argument bounds the depth
  of the recursion; \<open>None\<close> is a run that exceeds it or that reads \<open>nodes[node]\<close>
  outside the vector, where the source has no defined behaviour. \<open>dfs_each\<close> is the
  loop \<open>for (x : ids) if (visited.find(x) == visited.end()) dfs(x)\<close>, which the source
  has twice: over \<open>adjList[node]\<close> inside \<open>dfs\<close>, and over \<open>sources\<close>.
\<close>

fun dfs :: "'a graph \<Rightarrow> nat \<Rightarrow> nat \<Rightarrow> nat set \<times> 'a list \<Rightarrow> (nat set \<times> 'a list) option"
  and dfs_each :: "'a graph \<Rightarrow> nat \<Rightarrow> nat list \<Rightarrow> nat set \<times> 'a list \<Rightarrow> (nat set \<times> 'a list) option"
  where
  "dfs g 0 node st = None"
| "dfs g (Suc depth) node (visited, res) =
     (case dfs_each g depth (adjList g node) (insert node visited, res) of
        None \<Rightarrow> None
      | Some (visited', res') \<Rightarrow>
          if node < length (nodes g) then Some (visited', res' @ [nodes g ! node]) else None)"
| "dfs_each g depth [] st = Some st"
| "dfs_each g depth (x # xs) (visited, res) =
     (if x \<notin> visited
      then (case dfs g depth x (visited, res) of
              None \<Rightarrow> None
            | Some st' \<Rightarrow> dfs_each g depth xs st')
      else dfs_each g depth xs (visited, res))"

definition topologicalSort :: "nat \<Rightarrow> 'a graph \<Rightarrow> bool \<Rightarrow> 'a list option" where
  "topologicalSort depth g reverseOrder =
     (case dfs_each g depth (sources g) ({}, []) of
        None \<Rightarrow> None
      | Some (visited, res) \<Rightarrow> Some (if reverseOrder then res else rev res))"

subsection \<open>Call sequences and the states of a graph\<close>

text \<open>
  A client can only build a graph from \<open>Graph()\<close> by calls of the public member
  functions that change it. \<open>graph_state g\<close> says that \<open>g\<close> is such a state. For
  \<open>removeNonReachable\<close> the order \<open>ks\<close> is any enumeration of the keys of \<open>nodeMap\<close>
  without repetition.
\<close>

inductive graph_state :: "'a graph \<Rightarrow> bool" where
  gs_empty: "graph_state empty_graph"
| gs_addNode: "graph_state g \<Longrightarrow> graph_state (addNode node isSource g)"
| gs_addEdge: "graph_state g \<Longrightarrow> graph_state (addEdge src dest g)"
| gs_removeNode: "graph_state g \<Longrightarrow> graph_state (removeNode node g)"
| gs_removeNonReachable:
    "graph_state g \<Longrightarrow> distinct ks \<Longrightarrow> set ks = dom (nodeMap g) \<Longrightarrow>
     removeNonReachable ks g = Some g' \<Longrightarrow> graph_state g'"

text \<open>Sequences of \<open>addNode\<close>, \<open>addEdge\<close> and \<open>removeNode\<close> calls, run from the left.\<close>

datatype 'a call = AddNode 'a bool | AddEdge 'a 'a | RemoveNode 'a

fun apply_call :: "'a call \<Rightarrow> 'a graph \<Rightarrow> 'a graph" where
  "apply_call (AddNode node isSource) g = addNode node isSource g"
| "apply_call (AddEdge src dest) g = addEdge src dest g"
| "apply_call (RemoveNode node) g = removeNode node g"

definition run_calls :: "'a call list \<Rightarrow> 'a graph \<Rightarrow> 'a graph" where
  "run_calls cs g = fold apply_call cs g"

subsection \<open>Notions used to state the properties\<close>

text \<open>
  The forward edges between ids, and the ids reachable from the source set along them
  (a source is reachable from itself).
\<close>

definition edges :: "'a graph \<Rightarrow> (nat \<times> nat) set" where
  "edges g = {(s, d). d \<in> set (adjList g s)}"

definition reach :: "'a graph \<Rightarrow> nat set" where
  "reach g = (edges g)\<^sup>* `` set (sources g)"

text \<open>\<open>precedes a b xs\<close>: some occurrence of \<open>a\<close> in \<open>xs\<close> is followed, later, by \<open>b\<close>.\<close>

fun precedes :: "'a \<Rightarrow> 'a \<Rightarrow> 'a list \<Rightarrow> bool" where
  "precedes a b [] = False"
| "precedes a b (x # xs) = ((x = a \<and> b \<in> set xs) \<or> precedes a b xs)"

text \<open>
  The representation invariant of the five members: \<open>nodes\<close> has no repetition, its
  elements are the keys of \<open>nodeMap\<close>, the id stored for a value is its index in \<open>nodes\<close>,
  the two adjacency structures mirror each other, every edge joins the ids of two values
  that are present, and every source id is an index of \<open>nodes\<close>.
\<close>

definition graph_inv :: "'a graph \<Rightarrow> bool" where
  "graph_inv g \<longleftrightarrow>
     distinct (nodes g) \<and>
     dom (nodeMap g) = set (nodes g) \<and>
     (\<forall>v p i. nodeMap g v = Some (p, i) \<longrightarrow> i < length (nodes g) \<and> nodes g ! i = v) \<and>
     (\<forall>s d. d \<in> set (adjList g s) \<longleftrightarrow> s \<in> set (revAdjList g d)) \<and>
     (\<forall>s d. d \<in> set (adjList g s) \<longrightarrow>
        s < length (nodes g) \<and> d < length (nodes g) \<and>
        nodeMap g (nodes g ! s) = Some (True, s) \<and> nodeMap g (nodes g ! d) = Some (True, d)) \<and>
     set (sources g) \<subseteq> {..<length (nodes g)}"

text \<open>
  What a run of \<open>dfs\<close> or \<open>dfs_each\<close> achieves, started with \<open>visited = vis\<close> and
  \<open>res\<close> on the ids \<open>roots\<close>: it returns, and the ids \<open>ids\<close> it appends (as values) are
  new, without repetition, reachable from the roots, cover the roots, have all their
  successors visited, and every successor of an appended id was visited before the run,
  or appended earlier, or lies on a cycle through that id (\<open>post_ordered\<close>).
\<close>

fun post_ordered :: "(nat \<times> nat) set \<Rightarrow> nat set \<Rightarrow> nat list \<Rightarrow> bool" where
  "post_ordered E D [] = True"
| "post_ordered E D (x # xs) =
     ((\<forall>y. (x, y) \<in> E \<longrightarrow> y \<in> D \<or> (y, x) \<in> E\<^sup>*) \<and> post_ordered E (insert x D) xs)"

definition dfs_ok ::
  "'a graph \<Rightarrow> nat set \<Rightarrow> 'a list \<Rightarrow> nat set \<Rightarrow> (nat set \<times> 'a list) option \<Rightarrow> bool" where
  "dfs_ok g vis res roots r \<longleftrightarrow>
     (\<exists>ids. r = Some (vis \<union> set ids, res @ map (\<lambda>i. nodes g ! i) ids) \<and>
        distinct ids \<and> set ids \<inter> vis = {} \<and> roots \<subseteq> vis \<union> set ids \<and>
        set ids \<subseteq> (edges g)\<^sup>* `` roots \<and>
        (\<forall>x\<in>set ids. set (adjList g x) \<subseteq> vis \<union> set ids) \<and>
        post_ordered (edges g) vis ids)"

text \<open>
  The graph that \<open>test/Misc/Graph.C\<close> has built when it calls \<open>removeNonReachable\<close>
  (the node \<open>Node("node", i)\<close> is written \<open>i\<close>).
\<close>

definition test_graph :: "nat graph" where
  "test_graph =
     removeNode 4 (addEdge 4 0 (addEdge 0 3 (addEdge 5 6 (addEdge 4 5 (addEdge 3 4
       (addEdge 2 3 (addEdge 1 2 (addEdge 0 1 (addNode 0 True empty_graph)))))))))"

section \<open>The representation invariant\<close>

lemma graph_inv_empty: "graph_inv empty_graph"
  by (simp add: graph_inv_def empty_graph_def)

lemma inv_id_bound: "graph_inv g \<Longrightarrow> nodeMap g v = Some (p, i) \<Longrightarrow> i < length (nodes g)"
  by (simp add: graph_inv_def)

lemma inv_id_nth: "graph_inv g \<Longrightarrow> nodeMap g v = Some (p, i) \<Longrightarrow> nodes g ! i = v"
  by (simp add: graph_inv_def)

lemma inv_known_iff: "graph_inv g \<Longrightarrow> (nodeMap g v \<noteq> None) = (v \<in> set (nodes g))"
  unfolding graph_inv_def by (metis domIff)

lemma inv_id_inj:
  "graph_inv g \<Longrightarrow> nodeMap g u = Some (p, i) \<Longrightarrow> nodeMap g v = Some (q, i) \<Longrightarrow> u = v"
  using inv_id_nth by metis

lemma inv_edge_bound:
  "graph_inv g \<Longrightarrow> d \<in> set (adjList g s) \<Longrightarrow> s < length (nodes g) \<and> d < length (nodes g)"
  by (simp add: graph_inv_def)

lemma inv_redge_bound:
  "graph_inv g \<Longrightarrow> s \<in> set (revAdjList g d) \<Longrightarrow> s < length (nodes g) \<and> d < length (nodes g)"
  by (simp add: graph_inv_def)

lemma inv_sym: "graph_inv g \<Longrightarrow> d \<in> set (adjList g s) \<longleftrightarrow> s \<in> set (revAdjList g d)"
  by (simp add: graph_inv_def)

lemma graph_inv_addNode:
  assumes "graph_inv g" shows "graph_inv (addNode v b g)"
proof (cases "nodeMap g v")
  case None
  let ?n = "length (nodes g)"
  have fresh: "v \<notin> set (nodes g)" using assms None inv_known_iff[of g v] by simp
  have noadj: "adjList g ?n = []" "revAdjList g ?n = []"
    using assms inv_edge_bound[of g _ ?n] inv_redge_bound[of g _ ?n]
    by (cases "adjList g ?n"; cases "revAdjList g ?n"; fastforce)+
  have eq: "addNode v b g = g\<lparr>nodes := nodes g @ [v], nodeMap := (nodeMap g)(v \<mapsto> (True, ?n)),
       sources := (if b then insort_insert ?n (sources g) else sources g)\<rparr>"
    using None noadj by (simp add: addNode_def Let_def fun_upd_idem)
  show ?thesis unfolding eq using assms fresh
    apply (simp add: graph_inv_def set_insort_insert nth_append)
    apply (intro conjI impI allI)
    apply (auto simp: less_Suc_eq)
    done
next
  case (Some a)
  obtain p i where a: "a = (p, i)" by (cases a)
  show ?thesis
  proof (cases p)
    case True
    then show ?thesis using Some a assms by (simp add: addNode_def)
  next
    case False
    have eq: "addNode v b g = g\<lparr>nodeMap := (nodeMap g)(v \<mapsto> (True, i))\<rparr>"
      using Some a False by (simp add: addNode_def)
    have vi: "i < length (nodes g)" "nodes g ! i = v"
      using assms Some a inv_id_bound inv_id_nth by fastforce+
    have vin: "v \<in> set (nodes g)" using vi nth_mem by fastforce
    show ?thesis unfolding eq using assms Some a vin vi
      apply (simp add: graph_inv_def)
      apply (intro conjI impI allI)
         apply (auto simp: insert_absorb nth_eq_iff_index_eq)
      done
  qed
qed


lemma nodeMap_addNode:
  "nodeMap (addNode v b g) u =
     (if u = v then Some (True, case nodeMap g v of None \<Rightarrow> length (nodes g) | Some (p, i) \<Rightarrow> i)
      else nodeMap g u)"
  by (auto simp: addNode_def Let_def split: option.splits)

lemma nodes_addNode:
  "nodes (addNode v b g) = (if nodeMap g v = None then nodes g @ [v] else nodes g)"
  by (auto simp: addNode_def Let_def split: option.splits)

lemma sources_addNode:
  "sources (addNode v b g) =
     (if nodeMap g v = None \<and> b then insort_insert (length (nodes g)) (sources g) else sources g)"
  by (auto simp: addNode_def Let_def split: option.splits)

lemma adjList_addNode:
  "graph_inv g \<Longrightarrow> adjList (addNode v b g) = adjList g"
  "graph_inv g \<Longrightarrow> revAdjList (addNode v b g) = revAdjList g"
proof -
  assume inv: "graph_inv g"
  let ?n = "length (nodes g)"
  have "adjList g ?n = []" "revAdjList g ?n = []"
    using inv inv_edge_bound[of g _ ?n] inv_redge_bound[of g _ ?n]
    by (cases "adjList g ?n"; cases "revAdjList g ?n"; fastforce)+
  then show "adjList (addNode v b g) = adjList g" "revAdjList (addNode v b g) = revAdjList g"
    by (auto simp: addNode_def Let_def fun_upd_idem split: option.splits)
qed

lemma graph_inv_insert_edge:
  assumes inv: "graph_inv g"
    and s: "nodeMap g u = Some (True, si)" and d: "nodeMap g v = Some (True, di)"
  shows "graph_inv (g\<lparr>adjList := (adjList g)(si := insort_insert di (adjList g si)),
                      revAdjList := (revAdjList g)(di := insort_insert si (revAdjList g di))\<rparr>)"
proof -
  have b: "si < length (nodes g)" "di < length (nodes g)" "nodes g ! si = u" "nodes g ! di = v"
    using inv s d inv_id_bound inv_id_nth by fastforce+
  show ?thesis
    using inv s d b
    by (simp add: graph_inv_def set_insort_insert)
qed

lemma addEdge_eq:
  assumes s: "nodeMap (addNode v False (addNode u False g)) u = Some (p, si)"
    and d: "nodeMap (addNode v False (addNode u False g)) v = Some (q, di)"
  shows "addEdge u v g =
     (addNode v False (addNode u False g))
       \<lparr>adjList := (adjList (addNode v False (addNode u False g)))
            (si := insort_insert di (adjList (addNode v False (addNode u False g)) si)),
        revAdjList := (revAdjList (addNode v False (addNode u False g)))
            (di := insort_insert si (revAdjList (addNode v False (addNode u False g)) di))\<rparr>"
  using s d by (simp add: addEdge_def Let_def nodeMap_at_def)

lemma graph_inv_addEdge:
  assumes "graph_inv g" shows "graph_inv (addEdge u v g)"
proof -
  let ?g2 = "addNode v False (addNode u False g)"
  have inv2: "graph_inv ?g2" using assms by (simp add: graph_inv_addNode)
  obtain si where s: "nodeMap ?g2 u = Some (True, si)"
    by (cases "u = v") (auto simp: nodeMap_addNode)
  obtain di where d: "nodeMap ?g2 v = Some (True, di)"
    by (auto simp: nodeMap_addNode)
  show ?thesis
    unfolding addEdge_eq[OF s d] by (rule graph_inv_insert_edge[OF inv2 s d])
qed

lemma fold_erase_from:
  "fold (erase_from i) ks m = (\<lambda>k. if k \<in> set ks then removeAll i (m k) else m k)"
proof (induction ks arbitrary: m)
  case Nil
  show ?case by simp
next
  case (Cons a ks)
  have e: "erase_from i a m = m(a := removeAll i (m a))"
    by (simp add: erase_from_def)
  have "fold (erase_from i) (a # ks) m =
      (\<lambda>k. if k \<in> set ks then removeAll i ((m(a := removeAll i (m a))) k)
           else (m(a := removeAll i (m a))) k)"
    using Cons.IH[of "erase_from i a m"] by (simp only: fold_simps e)
  also have "\<dots> = (\<lambda>k. if k \<in> set (a # ks) then removeAll i (m k) else m k)"
    by (rule ext) auto
  finally show ?case .
qed

lemma removeNode_eq:
  assumes inv: "graph_inv g" and v: "nodeMap g v = Some (p, i)"
  shows "removeNode v g =
     g\<lparr>nodeMap := (nodeMap g)(v \<mapsto> (False, i)),
       adjList := (\<lambda>k. if k = i then [] else removeAll i (adjList g k)),
       revAdjList := (\<lambda>k. if k = i then [] else removeAll i (revAdjList g k))\<rparr>"
proof -
  let ?radj1 = "fold (erase_from i) (adjList g i) (revAdjList g)"
  have r1: "?radj1 = (\<lambda>k. removeAll i (revAdjList g k))"
    using inv_sym[OF inv] by (auto simp: fold_erase_from fun_eq_iff)
  have a2: "fold (erase_from i) (?radj1 i) ((adjList g)(i := []))
            = (\<lambda>k. if k = i then [] else removeAll i (adjList g k))"
    unfolding r1 using inv_sym[OF inv] by (auto simp: fold_erase_from fun_eq_iff)
  have r2: "?radj1(i := []) = (\<lambda>k. if k = i then [] else removeAll i (revAdjList g k))"
    unfolding r1 by (auto simp: fun_eq_iff)
  show ?thesis
    using v by (simp add: removeNode_def Let_def a2 r2)
qed

lemma graph_inv_removeNode:
  assumes inv: "graph_inv g" shows "graph_inv (removeNode v g)"
proof (cases "nodeMap g v")
  case None
  then show ?thesis using inv by (simp add: removeNode_def)
next
  case (Some a)
  obtain p i where a: "a = (p, i)" by (cases a)
  have vi: "i < length (nodes g)" "nodes g ! i = v"
    using inv Some a inv_id_bound inv_id_nth by fastforce+
  have vin: "v \<in> set (nodes g)" using vi nth_mem by fastforce
  show ?thesis
    unfolding removeNode_eq[OF inv Some[unfolded a]]
    using inv Some a vin vi
    apply (simp add: graph_inv_def)
    apply (intro conjI impI allI)
    apply (auto simp: insert_absorb nth_eq_iff_index_eq)
    done
qed

section \<open>The reachability loop of \<open>removeNonReachable\<close>\<close>

lemma fold_push_unvisited:
  "\<exists>new. fold push_unvisited ds (stack, visited) = (stack @ new, visited \<union> set ds) \<and>
         set new = set ds - visited \<and> distinct new"
proof (induction ds arbitrary: stack visited)
  case Nil
  show ?case by simp
next
  case (Cons d ds)
  show ?case
  proof (cases "d \<in> visited")
    case True
    obtain new where n: "fold push_unvisited ds (stack, visited) = (stack @ new, visited \<union> set ds)"
      "set new = set ds - visited" "distinct new"
      using Cons.IH[of stack visited] by blast
    have "fold push_unvisited (d # ds) (stack, visited) = (stack @ new, visited \<union> set (d # ds))"
      using True n(1) by (simp add: push_unvisited_def insert_absorb)
    moreover have "set new = set (d # ds) - visited" using True n(2) by auto
    ultimately show ?thesis using n(3) by blast
  next
    case False
    obtain new where n: "fold push_unvisited ds (stack @ [d], insert d visited)
          = ((stack @ [d]) @ new, insert d visited \<union> set ds)"
      "set new = set ds - insert d visited" "distinct new"
      using Cons.IH[of "stack @ [d]" "insert d visited"] by blast
    have "fold push_unvisited (d # ds) (stack, visited) = (stack @ (d # new), visited \<union> set (d # ds))"
      using False n(1) by (simp add: push_unvisited_def)
    moreover have "set (d # new) = set (d # ds) - visited" using False n(2) by auto
    moreover have "distinct (d # new)" using n(2,3) by auto
    ultimately show ?thesis by blast
  qed
qed

lemma reach_loop_spec:
  assumes bound: "\<forall>s. \<forall>d\<in>set (adj s). d < n"
  shows "visited \<subseteq> {..<n} \<Longrightarrow> set stack \<subseteq> visited \<Longrightarrow>
         (\<forall>x\<in>visited - set stack. set (adj x) \<subseteq> visited) \<Longrightarrow>
         \<exists>v. reach_loop adj (stack, visited) = Some v \<and> visited \<subseteq> v \<and>
             v \<subseteq> {(s, d). d \<in> set (adj s)}\<^sup>* `` visited \<and>
             (\<forall>x\<in>v. set (adj x) \<subseteq> v)"
proof (induction "card ({..<n} - visited) + length stack" arbitrary: stack visited rule: less_induct)
  case less
  let ?E = "{(s, d). d \<in> set (adj s)}"
  show ?case
  proof (cases "stack = []")
    case True
    have "reach_loop adj (stack, visited) = Some visited"
      using True by (subst reach_loop.simps) simp
    moreover have "\<forall>x\<in>visited. set (adj x) \<subseteq> visited"
      using less.prems(3) True by simp
    ultimately show ?thesis by auto
  next
    case False
    let ?node = "last stack"
    let ?A = "set (adj ?node)"
    obtain new where n: "fold push_unvisited (adj ?node) (butlast stack, visited)
          = (butlast stack @ new, visited \<union> ?A)"
      "set new = ?A - visited" "distinct new"
      using fold_push_unvisited[of "adj ?node" "butlast stack" visited] by blast
    have step: "reach_loop adj (stack, visited) = reach_loop adj (butlast stack @ new, visited \<union> ?A)"
      using False n(1) by (subst reach_loop.simps) simp
    have Asub: "?A \<subseteq> {..<n}" using bound by auto
    have node_in: "?node \<in> visited" using False less.prems(2) last_in_set by blast
    have st: "set stack = insert ?node (set (butlast stack))"
      using False by (metis append_butlast_last_id list.simps(15) rotate1.simps(2) set_rotate1)
    have len_new: "length new = card (?A - visited)"
      using n(2,3) distinct_card by fastforce
    have split: "{..<n} - visited = ({..<n} - (visited \<union> ?A)) \<union> (?A - visited)"
      using Asub by auto
    have "card ({..<n} - visited) = card ({..<n} - (visited \<union> ?A)) + card (?A - visited)"
      by (subst split, rule card_Un_disjoint) auto
    then have dec: "card ({..<n} - (visited \<union> ?A)) + length (butlast stack @ new)
          < card ({..<n} - visited) + length stack"
      using False len_new by (simp add: length_greater_0_conv)
    have p1: "visited \<union> ?A \<subseteq> {..<n}" using less.prems(1) Asub by auto
    have p2: "set (butlast stack @ new) \<subseteq> visited \<union> ?A"
      using less.prems(2) n(2) st by auto
    have p3: "\<forall>x\<in>(visited \<union> ?A) - set (butlast stack @ new). set (adj x) \<subseteq> visited \<union> ?A"
    proof
      fix x assume x: "x \<in> (visited \<union> ?A) - set (butlast stack @ new)"
      then have xv: "x \<in> visited" using n(2) by auto
      show "set (adj x) \<subseteq> visited \<union> ?A"
      proof (cases "x = ?node")
        case True
        then show ?thesis by auto
      next
        case False
        then have "x \<in> visited - set stack" using x xv st by auto
        then show ?thesis using less.prems(3) by blast
      qed
    qed
    obtain v where v: "reach_loop adj (butlast stack @ new, visited \<union> ?A) = Some v"
      "visited \<union> ?A \<subseteq> v" "v \<subseteq> ?E\<^sup>* `` (visited \<union> ?A)" "\<forall>x\<in>v. set (adj x) \<subseteq> v"
      using less.hyps[OF dec p1 p2 p3] by blast
    have "?E\<^sup>* `` (visited \<union> ?A) \<subseteq> ?E\<^sup>* `` visited"
    proof
      fix y assume "y \<in> ?E\<^sup>* `` (visited \<union> ?A)"
      then obtain x where x: "x \<in> visited \<union> ?A" "(x, y) \<in> ?E\<^sup>*" by blast
      show "y \<in> ?E\<^sup>* `` visited"
      proof (cases "x \<in> visited")
        case True
        then show ?thesis using x(2) by blast
      next
        case False
        then have "(?node, x) \<in> ?E" using x(1) by simp
        then have "(?node, y) \<in> ?E\<^sup>*" using x(2) by (rule converse_rtrancl_into_rtrancl)
        then show ?thesis using node_in by blast
      qed
    qed
    then show ?thesis using v step by auto
  qed
qed

lemma reach_loop_sources:
  assumes inv: "graph_inv g"
  shows "reach_loop (adjList g) (sources g, set (sources g)) = Some (reach g)"
proof -
  let ?n = "length (nodes g)"
  have b: "\<forall>s. \<forall>d\<in>set (adjList g s). d < ?n"
    using inv inv_edge_bound by blast
  have s: "set (sources g) \<subseteq> {..<?n}" using inv by (simp add: graph_inv_def)
  obtain v where v: "reach_loop (adjList g) (sources g, set (sources g)) = Some v"
    "set (sources g) \<subseteq> v" "v \<subseteq> (edges g)\<^sup>* `` set (sources g)"
    "\<forall>x\<in>v. set (adjList g x) \<subseteq> v"
    using reach_loop_spec[where adj="adjList g" and n="?n" and visited="set (sources g)"
        and stack="sources g", OF b s]
    unfolding edges_def by auto
  have "(edges g)\<^sup>* `` set (sources g) \<subseteq> v"
  proof
    fix y assume "y \<in> (edges g)\<^sup>* `` set (sources g)"
    then obtain x where x: "x \<in> set (sources g)" "(x, y) \<in> (edges g)\<^sup>*" by blast
    from x(2) show "y \<in> v"
    proof (induction rule: rtrancl_induct)
      case base
      show ?case using x(1) v(2) by blast
    next
      case (step y z)
      then show ?case using v(4) by (auto simp: edges_def)
    qed
  qed
  then have "v = reach g" using v(3) by (auto simp: reach_def)
  then show ?thesis using v(1) by simp
qed

section \<open>The depth-first traversal of \<open>topologicalSort\<close>\<close>

lemma dfs_okI:
  "r = Some (vis \<union> set ids, res @ map (\<lambda>i. nodes g ! i) ids) \<Longrightarrow>
   distinct ids \<Longrightarrow> set ids \<inter> vis = {} \<Longrightarrow> roots \<subseteq> vis \<union> set ids \<Longrightarrow>
   set ids \<subseteq> (edges g)\<^sup>* `` roots \<Longrightarrow>
   \<forall>x\<in>set ids. set (adjList g x) \<subseteq> vis \<union> set ids \<Longrightarrow>
   post_ordered (edges g) vis ids \<Longrightarrow> dfs_ok g vis res roots r"
  unfolding dfs_ok_def by (intro exI[of _ ids] conjI)

lemma dfs_okE:
  assumes "dfs_ok g vis res roots r"
  obtains ids where "r = Some (vis \<union> set ids, res @ map (\<lambda>i. nodes g ! i) ids)"
    "distinct ids" "set ids \<inter> vis = {}" "roots \<subseteq> vis \<union> set ids"
    "set ids \<subseteq> (edges g)\<^sup>* `` roots"
    "\<forall>x\<in>set ids. set (adjList g x) \<subseteq> vis \<union> set ids"
    "post_ordered (edges g) vis ids"
  using assms unfolding dfs_ok_def by (elim exE conjE) (rule that)

lemma post_ordered_append:
  "post_ordered E D (xs @ ys) = (post_ordered E D xs \<and> post_ordered E (D \<union> set xs) ys)"
  by (induction xs arbitrary: D) auto

lemma post_ordered_drop:
  "post_ordered E (insert a D) xs \<Longrightarrow> \<forall>x\<in>set xs. (a, x) \<in> E\<^sup>* \<Longrightarrow> post_ordered E D xs"
proof (induction xs arbitrary: D)
  case Nil
  show ?case by simp
next
  case (Cons x xs)
  have "post_ordered E (insert a (insert x D)) xs"
    using Cons.prems(1) by (simp add: insert_commute)
  then have "post_ordered E (insert x D) xs"
    using Cons.IH Cons.prems(2) by simp
  moreover have "\<forall>y. (x, y) \<in> E \<longrightarrow> y \<in> D \<or> (y, x) \<in> E\<^sup>*"
    using Cons.prems by auto
  ultimately show ?case by simp
qed

lemma dfs_each_ok:
  assumes step: "\<And>node vis res. node < length (nodes g) \<Longrightarrow> node \<notin> vis \<Longrightarrow>
            card ({..<length (nodes g)} - vis) \<le> k \<Longrightarrow>
            dfs_ok g vis res {node} (dfs g k node (vis, res))"
  shows "set xs \<subseteq> {..<length (nodes g)} \<Longrightarrow> card ({..<length (nodes g)} - vis) \<le> k \<Longrightarrow>
         dfs_ok g vis res (set xs) (dfs_each g k xs (vis, res))"
proof (induction xs arbitrary: vis res)
  case Nil
  show ?case by (rule dfs_okI[of _ _ "[]"]) simp_all
next
  case (Cons x xs)
  let ?n = "length (nodes g)"
  let ?f = "\<lambda>i. nodes g ! i"
  show ?case
  proof (cases "x \<in> vis")
    case True
    have xs: "set xs \<subseteq> {..<?n}" using Cons.prems(1) by simp
    obtain ids where i: "dfs_each g k xs (vis, res) = Some (vis \<union> set ids, res @ map ?f ids)"
      "distinct ids" "set ids \<inter> vis = {}" "set xs \<subseteq> vis \<union> set ids"
      "set ids \<subseteq> (edges g)\<^sup>* `` set xs"
      "\<forall>x\<in>set ids. set (adjList g x) \<subseteq> vis \<union> set ids" "post_ordered (edges g) vis ids"
      by (rule dfs_okE[OF Cons.IH[OF xs Cons.prems(2), of res]])
    have "dfs_each g k (x # xs) (vis, res) = Some (vis \<union> set ids, res @ map ?f ids)"
      using True i(1) by simp
    moreover have "set (x # xs) \<subseteq> vis \<union> set ids" using True i(4) by auto
    moreover have "set ids \<subseteq> (edges g)\<^sup>* `` set (x # xs)" using i(5) by auto
    ultimately show ?thesis using i(2,3,6,7) by (intro dfs_okI[of _ _ ids])
  next
    case False
    have x: "x < ?n" and xs: "set xs \<subseteq> {..<?n}" using Cons.prems(1) by auto
    obtain ids1 where i1: "dfs g k x (vis, res) = Some (vis \<union> set ids1, res @ map ?f ids1)"
      "distinct ids1" "set ids1 \<inter> vis = {}" "{x} \<subseteq> vis \<union> set ids1"
      "set ids1 \<subseteq> (edges g)\<^sup>* `` {x}"
      "\<forall>x\<in>set ids1. set (adjList g x) \<subseteq> vis \<union> set ids1" "post_ordered (edges g) vis ids1"
      by (rule dfs_okE[OF step[OF x False Cons.prems(2), of res]])
    have "card ({..<?n} - (vis \<union> set ids1)) \<le> card ({..<?n} - vis)"
      by (rule card_mono) auto
    then have c: "card ({..<?n} - (vis \<union> set ids1)) \<le> k" using Cons.prems(2) by simp
    obtain ids2 where i2: "dfs_each g k xs (vis \<union> set ids1, res @ map ?f ids1)
          = Some ((vis \<union> set ids1) \<union> set ids2, (res @ map ?f ids1) @ map ?f ids2)"
      "distinct ids2" "set ids2 \<inter> (vis \<union> set ids1) = {}" "set xs \<subseteq> (vis \<union> set ids1) \<union> set ids2"
      "set ids2 \<subseteq> (edges g)\<^sup>* `` set xs"
      "\<forall>x\<in>set ids2. set (adjList g x) \<subseteq> (vis \<union> set ids1) \<union> set ids2"
      "post_ordered (edges g) (vis \<union> set ids1) ids2"
      by (rule dfs_okE[OF Cons.IH[OF xs c, of "res @ map ?f ids1"]])
    let ?ids = "ids1 @ ids2"
    have "dfs_each g k (x # xs) (vis, res) = Some (vis \<union> set ?ids, res @ map ?f ?ids)"
      using False i1(1) i2(1) by (simp add: Un_assoc)
    moreover have "distinct ?ids" using i1(2) i2(2,3) by auto
    moreover have "set ?ids \<inter> vis = {}" using i1(3) i2(3) by auto
    moreover have "set (x # xs) \<subseteq> vis \<union> set ?ids" using i1(4) i2(4) by auto
    moreover have "set ?ids \<subseteq> (edges g)\<^sup>* `` set (x # xs)" using i1(5) i2(5) by auto
    moreover have "\<forall>y\<in>set ?ids. set (adjList g y) \<subseteq> vis \<union> set ?ids"
      using i1(6) i2(6) by auto
    moreover have "post_ordered (edges g) vis ?ids"
      using i1(7) i2(7) by (simp add: post_ordered_append)
    ultimately show ?thesis by (rule dfs_okI)
  qed
qed

lemma dfs_ok_all:
  assumes bound: "\<forall>s. \<forall>d\<in>set (adjList g s). d < length (nodes g)"
  shows "node < length (nodes g) \<Longrightarrow> node \<notin> vis \<Longrightarrow>
         card ({..<length (nodes g)} - vis) \<le> k \<Longrightarrow>
         dfs_ok g vis res {node} (dfs g k node (vis, res))"
proof (induction k arbitrary: node vis res)
  case 0
  have "node \<in> {..<length (nodes g)} - vis" using "0.prems" by simp
  then have "0 < card ({..<length (nodes g)} - vis)"
    by (auto simp: card_gt_0_iff)
  then show ?case using "0.prems"(3) by simp
next
  case (Suc k)
  let ?n = "length (nodes g)"
  let ?f = "\<lambda>i. nodes g ! i"
  let ?E = "edges g"
  have a: "set (adjList g node) \<subseteq> {..<?n}" using bound by auto
  have "{..<?n} - vis = insert node ({..<?n} - insert node vis)" using Suc.prems(1,2) by auto
  moreover have "card (insert node ({..<?n} - insert node vis))
                 = Suc (card ({..<?n} - insert node vis))"
    by (rule card_insert_disjoint) auto
  ultimately have "card ({..<?n} - vis) = Suc (card ({..<?n} - insert node vis))"
    by (simp only:)
  then have c: "card ({..<?n} - insert node vis) \<le> k" using Suc.prems(3) by simp
  obtain ids where i: "dfs_each g k (adjList g node) (insert node vis, res)
        = Some (insert node vis \<union> set ids, res @ map ?f ids)"
    "distinct ids" "set ids \<inter> insert node vis = {}"
    "set (adjList g node) \<subseteq> insert node vis \<union> set ids"
    "set ids \<subseteq> ?E\<^sup>* `` set (adjList g node)"
    "\<forall>x\<in>set ids. set (adjList g x) \<subseteq> insert node vis \<union> set ids"
    "post_ordered ?E (insert node vis) ids"
    by (rule dfs_okE[OF dfs_each_ok[of g k "adjList g node" "insert node vis" res, OF Suc.IH a c]])
  let ?ids = "ids @ [node]"
  have r: "set ids \<subseteq> ?E\<^sup>* `` {node}"
  proof
    fix y assume "y \<in> set ids"
    then obtain x where x: "x \<in> set (adjList g node)" "(x, y) \<in> ?E\<^sup>*" using i(5) by blast
    have "(node, x) \<in> ?E" using x(1) by (simp add: edges_def)
    then have "(node, y) \<in> ?E\<^sup>*" using x(2) by (rule converse_rtrancl_into_rtrancl)
    then show "y \<in> ?E\<^sup>* `` {node}" by blast
  qed
  have "dfs g (Suc k) node (vis, res) = Some (vis \<union> set ?ids, res @ map ?f ?ids)"
    using i(1) Suc.prems(1) by simp
  moreover have "distinct ?ids" using i(2,3) by auto
  moreover have "set ?ids \<inter> vis = {}" using i(3) Suc.prems(2) by auto
  moreover have "{node} \<subseteq> vis \<union> set ?ids" by simp
  moreover have "set ?ids \<subseteq> ?E\<^sup>* `` {node}" using r by auto
  moreover have "\<forall>y\<in>set ?ids. set (adjList g y) \<subseteq> vis \<union> set ?ids"
  proof -
    have e: "vis \<union> set ?ids = insert node vis \<union> set ids" by auto
    show ?thesis unfolding e using i(4,6) by simp
  qed
  moreover have "post_ordered ?E vis ?ids"
  proof -
    have "\<forall>x\<in>set ids. (node, x) \<in> ?E\<^sup>*" using r by blast
    then have "post_ordered ?E vis ids"
      by (rule post_ordered_drop[OF i(7)])
    moreover have "\<forall>y. (node, y) \<in> ?E \<longrightarrow> y \<in> vis \<union> set ids \<or> (y, node) \<in> ?E\<^sup>*"
      using i(4) by (auto simp: edges_def)
    ultimately show ?thesis by (simp add: post_ordered_append)
  qed
  ultimately show ?case by (rule dfs_okI)
qed

section \<open>Every state of a graph satisfies the invariant\<close>

lemma nodeMap_removeNode:
  "nodeMap (removeNode v g) u =
     (if u = v then map_option (\<lambda>(p, i). (False, i)) (nodeMap g v) else nodeMap g u)"
  by (auto simp: removeNode_def Let_def split: option.splits)

lemma nodes_removeNode: "nodes (removeNode v g) = nodes g"
  by (auto simp: removeNode_def Let_def split: option.splits)

lemma sources_removeNode: "sources (removeNode v g) = sources g"
  by (auto simp: removeNode_def Let_def split: option.splits)

lemma nodeMap_addEdge:
  "nodeMap (addEdge u v g) = nodeMap (addNode v False (addNode u False g))"
  by (simp add: addEdge_def Let_def)

lemma nodes_addEdge:
  "nodes (addEdge u v g) = nodes (addNode v False (addNode u False g))"
  by (simp add: addEdge_def Let_def)

lemma sources_addEdge:
  "sources (addEdge u v g) = sources (addNode v False (addNode u False g))"
  by (simp add: addEdge_def Let_def)

lemma graph_inv_remove_unvisited: "graph_inv g \<Longrightarrow> graph_inv (remove_unvisited V k g)"
  by (auto simp: remove_unvisited_def graph_inv_removeNode split: option.splits)

lemma graph_inv_fold_remove_unvisited:
  "graph_inv g \<Longrightarrow> graph_inv (fold (remove_unvisited V) ks g)"
  by (induction ks arbitrary: g) (simp_all add: graph_inv_remove_unvisited)

lemma removeNonReachable_eq:
  "graph_inv g \<Longrightarrow> removeNonReachable ks g = Some (fold (remove_unvisited (reach g)) ks g)"
  by (simp add: removeNonReachable_def reach_loop_sources)

lemma graph_state_inv: "graph_state g \<Longrightarrow> graph_inv g"
proof (induction rule: graph_state.induct)
  case gs_empty
  show ?case by (rule graph_inv_empty)
next
  case (gs_addNode g node isSource)
  then show ?case by (simp add: graph_inv_addNode)
next
  case (gs_addEdge g src dest)
  then show ?case by (simp add: graph_inv_addEdge)
next
  case (gs_removeNode g node)
  then show ?case by (simp add: graph_inv_removeNode)
next
  case (gs_removeNonReachable g ks g')
  then show ?case
    using removeNonReachable_eq[of g ks] graph_inv_fold_remove_unvisited[of g "reach g" ks]
    by simp
qed

lemma graph_state_nodes_known:
  "graph_state g \<Longrightarrow> node \<in> set (nodes g) \<Longrightarrow> nodeMap g node \<noteq> None"
  using inv_known_iff[OF graph_state_inv, of g node] by simp

lemma graph_inv_apply_call: "graph_inv g \<Longrightarrow> graph_inv (apply_call c g)"
  by (cases c) (simp_all add: graph_inv_addNode graph_inv_addEdge graph_inv_removeNode)

lemma graph_inv_run_calls: "graph_inv g \<Longrightarrow> graph_inv (run_calls cs g)"
  unfolding run_calls_def
  by (induction cs arbitrary: g) (simp_all add: graph_inv_apply_call)

lemma graph_state_apply_call: "graph_state g \<Longrightarrow> graph_state (apply_call c g)"
  by (cases c) (simp_all add: gs_addNode gs_addEdge gs_removeNode)

lemma graph_state_run_calls: "graph_state g \<Longrightarrow> graph_state (run_calls cs g)"
  unfolding run_calls_def
  by (induction cs arbitrary: g) (simp_all add: graph_state_apply_call)

lemma id_kept_apply_call:
  "nodeMap g v = Some (p, i) \<Longrightarrow> \<exists>q. nodeMap (apply_call c g) v = Some (q, i)"
  by (cases c) (auto simp: nodeMap_addNode nodeMap_addEdge nodeMap_removeNode)

lemma id_kept_run_calls:
  "nodeMap g v = Some (p, i) \<Longrightarrow> \<exists>q. nodeMap (run_calls cs g) v = Some (q, i)"
  unfolding run_calls_def
proof (induction cs arbitrary: g p)
  case Nil
  then show ?case by simp
next
  case (Cons c cs)
  obtain q where "nodeMap (apply_call c g) v = Some (q, i)"
    using id_kept_apply_call[OF Cons.prems] by blast
  then show ?case using Cons.IH by simp
qed

lemma inv_nth_id:
  assumes "graph_inv g" "j < length (nodes g)"
  shows "\<exists>q. nodeMap g (nodes g ! j) = Some (q, j)"
proof -
  have "nodes g ! j \<in> set (nodes g)" using assms(2) by simp
  then obtain q i where qi: "nodeMap g (nodes g ! j) = Some (q, i)"
    using inv_known_iff[OF assms(1)] by fastforce
  then have "i < length (nodes g)" "nodes g ! i = nodes g ! j"
    using assms(1) inv_id_bound inv_id_nth by fastforce+
  moreover have "distinct (nodes g)" using assms(1) by (simp add: graph_inv_def)
  ultimately have "i = j" using assms(2) by (simp add: nth_eq_iff_index_eq)
  then show ?thesis using qi by simp
qed

lemma inv_inactive_isolated:
  assumes "graph_inv g" "nodeMap g v = Some (False, i)"
  shows "adjList g i = []" "revAdjList g i = []"
proof -
  have v: "nodes g ! i = v" using assms inv_id_nth by fastforce
  have e: "\<And>s d. d \<in> set (adjList g s) \<Longrightarrow>
        nodeMap g (nodes g ! s) = Some (True, s) \<and> nodeMap g (nodes g ! d) = Some (True, d)"
    using assms(1) by (simp add: graph_inv_def)
  have "\<forall>d. d \<notin> set (adjList g i)" using e[of _ i] v assms(2) by fastforce
  then show "adjList g i = []" by (cases "adjList g i") auto
  have "\<forall>s. s \<notin> set (revAdjList g i)"
    using e[of i] v assms(2) inv_sym[OF assms(1)] by fastforce
  then show "revAdjList g i = []" by (cases "revAdjList g i") auto
qed

section \<open>Properties of the container\<close>

text \<open>The definitions that a concrete run unfolds.\<close>

lemmas graph_eval =
  Let_def insort_insert_key_def nodeMap_at_def empty_graph_def addNode_def addEdge_def
  removeNode_def erase_from_def getNodes_def isConnected_def

subsection \<open>Operations on unknown values\<close>

text \<open>
  Claim C8. For every graph \<open>g\<close> and every value \<open>v\<close> that is not a key of \<open>nodeMap\<close>
  (never inserted): \<open>removeNode v\<close> returns and leaves the whole state as it was, and
  \<open>isConnected\<close> is false, without any failure, as soon as \<open>v\<close> is one of its two
  arguments.
\<close>

theorem unknown_value_degrades:
  "nodeMap g v = None \<Longrightarrow>
     removeNode v g = g \<and> isConnected v x g = False \<and> isConnected x v g = False"
  by (simp add: removeNode_def isConnected_def)

theorem unknown_value_degrades_witness:
  "nodeMap (addEdge (1::nat) 2 empty_graph) 0 = None \<and>
   removeNode 0 (addEdge (1::nat) 2 empty_graph) = addEdge 1 2 empty_graph \<and>
   isConnected 0 2 (addEdge (1::nat) 2 empty_graph) = False \<and>
   isConnected 1 0 (addEdge (1::nat) 2 empty_graph) = False \<and>
   isConnected 1 2 (addEdge (1::nat) 2 empty_graph) = True"
proof -
  have h: "nodeMap (addEdge (1::nat) 2 empty_graph) 0 = None"
    by (simp add: graph_eval)
  have c: "isConnected 1 2 (addEdge (1::nat) 2 empty_graph) = True"
    by (simp add: graph_eval)
  show ?thesis
    using h c unknown_value_degrades[OF h, of 2] unknown_value_degrades[OF h, of 1] by simp
qed

subsection \<open>Adjacency symmetry\<close>

text \<open>
  Claim C3. In every state reached from the empty graph by \<open>addNode\<close>, \<open>addEdge\<close>,
  \<open>removeNode\<close> and \<open>removeNonReachable\<close>, the id \<open>dest\<close> is in the forward adjacency
  set of \<open>src\<close> if and only if \<open>src\<close> is in the reverse adjacency set of \<open>dest\<close>.
\<close>

theorem adjacency_symmetry:
  "graph_state g \<Longrightarrow> dest \<in> set (adjList g src) \<longleftrightarrow> src \<in> set (revAdjList g dest)"
  using graph_state_inv inv_sym by blast

theorem adjacency_symmetry_witness:
  "graph_state (removeNode 3 (addEdge 2 3 (addEdge (1::nat) 2 empty_graph))) \<and>
   ((1 \<in> set (adjList (removeNode 3 (addEdge 2 3 (addEdge (1::nat) 2 empty_graph))) 0)) =
    (0 \<in> set (revAdjList (removeNode 3 (addEdge 2 3 (addEdge (1::nat) 2 empty_graph))) 1)))"
proof -
  have h: "graph_state (removeNode 3 (addEdge 2 3 (addEdge (1::nat) 2 empty_graph)))"
    by (intro gs_removeNode gs_addEdge gs_empty)
  show ?thesis using h adjacency_symmetry[OF h, of 1 0] by simp
qed

subsection \<open>Removal\<close>

text \<open>
  Claim C5. For every state of a graph and every known value \<open>v\<close>, right after
  \<open>removeNode v\<close>: \<open>isConnected v x\<close> and \<open>isConnected x v\<close> are false for every \<open>x\<close>,
  and \<open>v\<close> does not occur in \<open>getNodes\<close>.
\<close>

theorem removal_isolates:
  assumes "graph_state g" and "nodeMap g v \<noteq> None"
  shows "isConnected v x (removeNode v g) = False \<and>
         isConnected x v (removeNode v g) = False \<and>
         v \<notin> set (getNodes (removeNode v g))"
proof -
  have inv: "graph_inv g" using assms(1) by (rule graph_state_inv)
  obtain p i where v: "nodeMap g v = Some (p, i)" using assms(2) by auto
  let ?g = "removeNode v g"
  have nm: "nodeMap ?g v = Some (False, i)" using v by (simp add: nodeMap_removeNode)
  have adj: "adjList ?g = (\<lambda>k. if k = i then [] else removeAll i (adjList g k))"
    by (simp add: removeNode_eq[OF inv v])
  have 1: "isConnected v x ?g = False"
    using nm by (simp add: isConnected_def nodeMap_at_def adj)
  have 2: "isConnected x v ?g = False"
    using nm by (simp add: isConnected_def nodeMap_at_def adj)
  have 3: "v \<notin> set (getNodes ?g)"
    using nm by (simp add: getNodes_def nodeMap_at_def)
  show ?thesis using 1 2 3 by simp
qed

theorem removal_isolates_witness:
  "graph_state (addEdge 2 3 (addEdge (1::nat) 2 empty_graph)) \<and>
   nodeMap (addEdge 2 3 (addEdge (1::nat) 2 empty_graph)) 2 \<noteq> None \<and>
   isConnected 2 3 (removeNode 2 (addEdge 2 3 (addEdge (1::nat) 2 empty_graph))) = False \<and>
   isConnected 1 2 (removeNode 2 (addEdge 2 3 (addEdge (1::nat) 2 empty_graph))) = False \<and>
   2 \<notin> set (getNodes (removeNode 2 (addEdge 2 3 (addEdge (1::nat) 2 empty_graph))))"
proof -
  have h: "graph_state (addEdge 2 3 (addEdge (1::nat) 2 empty_graph))"
    by (intro gs_addEdge gs_empty)
  have k: "nodeMap (addEdge 2 3 (addEdge (1::nat) 2 empty_graph)) 2 \<noteq> None"
    by (simp add: graph_eval)
  show ?thesis
    using h k removal_isolates[OF h k, of 3] removal_isolates[OF h k, of 1] by simp
qed

subsection \<open>The source flag\<close>

lemma source_kept_out_apply_call:
  assumes inv: "graph_inv g" and v: "nodeMap g v = Some (p, i)" and ns: "i \<notin> set (sources g)"
  shows "i \<notin> set (sources (apply_call c g))"
proof -
  have b: "i < length (nodes g)" using inv v by (rule inv_id_bound)
  have add: "\<And>u b h. graph_inv h \<Longrightarrow> i < length (nodes h) \<Longrightarrow> i \<notin> set (sources h) \<Longrightarrow>
      i \<notin> set (sources (addNode u b h)) \<and> i < length (nodes (addNode u b h))"
    by (auto simp: sources_addNode nodes_addNode set_insort_insert)
  show ?thesis
  proof (cases c)
    case (AddNode u b)
    then show ?thesis using add[OF inv b ns] by simp
  next
    case (AddEdge u w)
    have 1: "i \<notin> set (sources (addNode u False g)) \<and> i < length (nodes (addNode u False g))"
      using add[OF inv b ns] by simp
    have "graph_inv (addNode u False g)" using inv by (rule graph_inv_addNode)
    then have "i \<notin> set (sources (addNode w False (addNode u False g)))"
      using add[of "addNode u False g" w False] 1 by simp
    then show ?thesis using AddEdge by (simp add: sources_addEdge)
  next
    case (RemoveNode u)
    then show ?thesis using ns by (simp add: sources_removeNode)
  qed
qed

lemma source_kept_out_run_calls:
  "graph_inv g \<Longrightarrow> nodeMap g v = Some (p, i) \<Longrightarrow> i \<notin> set (sources g) \<Longrightarrow>
   i \<notin> set (sources (run_calls cs g))"
  unfolding run_calls_def
proof (induction cs arbitrary: g p)
  case Nil
  then show ?case by simp
next
  case (Cons c cs)
  obtain q where q: "nodeMap (apply_call c g) v = Some (q, i)"
    using id_kept_apply_call[OF Cons.prems(2)] by blast
  have "graph_inv (apply_call c g)" using Cons.prems(1) by (rule graph_inv_apply_call)
  moreover have "i \<notin> set (sources (apply_call c g))"
    using Cons.prems by (rule source_kept_out_apply_call)
  ultimately show ?case using Cons.IH[OF _ q] by simp
qed

text \<open>
  Claim C9. For every value \<open>v\<close> that is already a key of \<open>nodeMap\<close> (present or
  removed), \<open>addNode v true\<close> leaves the source set as it was. Hence a value whose id
  is not a source, for instance one first inserted by \<open>addEdge\<close>, never becomes a
  source: after any further sequence of \<open>addNode\<close>, \<open>addEdge\<close> and \<open>removeNode\<close>
  calls, with any flags, its id is still outside the source set.
\<close>

theorem source_flag_only_on_first_insertion:
  assumes "nodeMap g v = Some (p, i)"
  shows "sources (addNode v True g) = sources g \<and>
         (graph_state g \<and> i \<notin> set (sources g) \<longrightarrow> i \<notin> set (sources (run_calls cs g)))"
  using assms source_kept_out_run_calls[OF graph_state_inv, of g v p i cs]
  by (simp add: sources_addNode)

theorem source_flag_only_on_first_insertion_witness:
  "nodeMap (addEdge (1::nat) 2 empty_graph) 1 = Some (True, 0) \<and>
   graph_state (addEdge (1::nat) 2 empty_graph) \<and>
   0 \<notin> set (sources (addEdge (1::nat) 2 empty_graph)) \<and>
   sources (addNode 1 True (addEdge (1::nat) 2 empty_graph)) = sources (addEdge (1::nat) 2 empty_graph) \<and>
   0 \<notin> set (sources (run_calls [RemoveNode 1, AddNode 1 True, AddNode 3 True]
                        (addEdge (1::nat) 2 empty_graph)))"
proof -
  have k: "nodeMap (addEdge (1::nat) 2 empty_graph) 1 = Some (True, 0)"
    by (simp add: graph_eval)
  have h: "graph_state (addEdge (1::nat) 2 empty_graph)"
    by (intro gs_addEdge gs_empty)
  have s: "0 \<notin> set (sources (addEdge (1::nat) 2 empty_graph))"
    by (simp add: graph_eval)
  show ?thesis
    using k h s
      source_flag_only_on_first_insertion[OF k, of "[RemoveNode 1, AddNode 1 True, AddNode 3 True]"]
    by simp
qed

subsection \<open>Ids\<close>

lemma ids_in_use:
  assumes "graph_inv g"
  shows "{i. \<exists>v p. nodeMap g v = Some (p, i)} = {..<length (nodes g)}"
proof (intro set_eqI iffI)
  fix i assume "i \<in> {i. \<exists>v p. nodeMap g v = Some (p, i)}"
  then show "i \<in> {..<length (nodes g)}" using inv_id_bound[OF assms] by auto
next
  fix i assume "i \<in> {..<length (nodes g)}"
  then show "i \<in> {i. \<exists>v p. nodeMap g v = Some (p, i)}"
    using inv_nth_id[OF assms, of i] by auto
qed

lemma nodes_prefix_apply_call: "\<exists>zs. nodes (apply_call c g) = nodes g @ zs"
  by (cases c) (auto simp: nodes_addNode nodes_addEdge nodes_removeNode)

lemma nodes_prefix_run_calls: "\<exists>zs. nodes (run_calls cs g) = nodes g @ zs"
  unfolding run_calls_def
proof (induction cs arbitrary: g)
  case Nil
  show ?case by simp
next
  case (Cons c cs)
  obtain zs where "nodes (apply_call c g) = nodes g @ zs"
    using nodes_prefix_apply_call by blast
  moreover obtain ys where "nodes (fold apply_call cs (apply_call c g)) = nodes (apply_call c g) @ ys"
    using Cons.IH by blast
  ultimately show ?case by simp
qed

text \<open>
  Claim C4. Let \<open>g\<close> be the graph after any sequence \<open>cs\<close> of \<open>addNode\<close>, \<open>addEdge\<close>
  and \<open>removeNode\<close> calls on the empty graph, and let \<open>v\<close> have the id \<open>i\<close> in \<open>g\<close>.
  After any further sequence \<open>cs'\<close> of such calls (removals and re-insertions of \<open>v\<close>
  included) \<open>v\<close> still has the id \<open>i\<close>, and no other value has it. The id is the
  position of \<open>v\<close> in the insertion-ordered node store, which only grows at its end; the
  ids in use are exactly
  \<open>0, \<dots>, length nodes - 1\<close>, and a value inserted for the first time gets the next
  one, \<open>length nodes\<close>.
\<close>

theorem id_stability:
  assumes "g = run_calls cs empty_graph" and "nodeMap g v = Some (p, i)"
  shows "(\<exists>q. nodeMap (run_calls cs' g) v = Some (q, i)) \<and>
         (\<forall>u q. nodeMap (run_calls cs' g) u = Some (q, i) \<longrightarrow> u = v) \<and>
         i < length (nodes g) \<and> nodes g ! i = v \<and>
         (\<exists>zs. nodes (run_calls cs' g) = nodes g @ zs) \<and>
         {j. \<exists>u q. nodeMap g u = Some (q, j)} = {..<length (nodes g)} \<and>
         (\<forall>u b. nodeMap g u = None \<longrightarrow>
            nodeMap (addNode u b g) u = Some (True, length (nodes g)))"
proof -
  have inv: "graph_inv g"
    using assms(1) graph_inv_run_calls[OF graph_inv_empty] by simp
  have inv': "graph_inv (run_calls cs' g)" using inv by (rule graph_inv_run_calls)
  obtain q where q: "nodeMap (run_calls cs' g) v = Some (q, i)"
    using id_kept_run_calls[OF assms(2)] by blast
  have 2: "\<forall>u q'. nodeMap (run_calls cs' g) u = Some (q', i) \<longrightarrow> u = v"
    using inv_id_inj[OF inv' _ q] by blast
  have 3: "i < length (nodes g)" "nodes g ! i = v"
    using inv assms(2) inv_id_bound inv_id_nth by fastforce+
  have 5: "\<forall>u b. nodeMap g u = None \<longrightarrow>
            nodeMap (addNode u b g) u = Some (True, length (nodes g))"
    by (simp add: nodeMap_addNode)
  show ?thesis
    using q 2 3 5 ids_in_use[OF inv] nodes_prefix_run_calls[of cs' g] by blast
qed

theorem id_stability_witness:
  "addEdge 2 3 (addNode (1::nat) False empty_graph)
     = run_calls [AddNode 1 False, AddEdge 2 3] empty_graph \<and>
   nodeMap (addEdge 2 3 (addNode (1::nat) False empty_graph)) 2 = Some (True, 1) \<and>
   (\<exists>q. nodeMap (run_calls [RemoveNode 2, AddNode 4 True, AddEdge 5 2]
           (addEdge 2 3 (addNode (1::nat) False empty_graph))) 2 = Some (q, 1)) \<and>
   nodes (addEdge 2 3 (addNode (1::nat) False empty_graph)) ! 1 = 2"
proof -
  have r: "addEdge 2 3 (addNode (1::nat) False empty_graph)
     = run_calls [AddNode 1 False, AddEdge 2 3] empty_graph"
    by (simp add: run_calls_def)
  have k: "nodeMap (addEdge 2 3 (addNode (1::nat) False empty_graph)) 2 = Some (True, 1)"
    by (simp add: graph_eval)
  show ?thesis
    using r k id_stability[OF r k, of "[RemoveNode 2, AddNode 4 True, AddEdge 5 2]"]
    by simp
qed

subsection \<open>Pruning\<close>

lemma present_remove_unvisited:
  "(nodeMap (remove_unvisited V k g) u = Some (True, i)) =
     (nodeMap g u = Some (True, i) \<and> \<not> (u = k \<and> i \<notin> V))"
  by (auto simp: remove_unvisited_def nodeMap_removeNode split: option.splits)

lemma present_fold_remove_unvisited:
  "(nodeMap (fold (remove_unvisited V) ks g) u = Some (True, i)) =
     (nodeMap g u = Some (True, i) \<and> \<not> (u \<in> set ks \<and> i \<notin> V))"
proof (induction ks arbitrary: g)
  case Nil
  show ?case by simp
next
  case (Cons k ks)
  show ?case by (auto simp: Cons.IH present_remove_unvisited)
qed

text \<open>
  Claim C7. In every state of a graph, and for every order \<open>ks\<close> in which the entries of
  \<open>nodeMap\<close> are visited, \<open>removeNonReachable\<close> returns, and afterwards a value is
  present if and only if it was present before the call and its id is reachable from
  the source ids along forward edges. In particular, with an empty source set every
  value is absent afterwards and \<open>getNodes\<close> returns the empty sequence.
\<close>

theorem removeNonReachable_keeps_reachable:
  assumes "graph_state g" and "set ks = dom (nodeMap g)"
  shows "\<exists>g'. removeNonReachable ks g = Some g' \<and>
           (\<forall>v i. nodeMap g' v = Some (True, i) \<longleftrightarrow>
                  nodeMap g v = Some (True, i) \<and> i \<in> reach g) \<and>
           (sources g = [] \<longrightarrow> (\<forall>v. fst (nodeMap_at g' v) = False) \<and> getNodes g' = [])"
proof -
  have inv: "graph_inv g" using assms(1) by (rule graph_state_inv)
  let ?g = "fold (remove_unvisited (reach g)) ks g"
  have r: "removeNonReachable ks g = Some ?g" using inv by (rule removeNonReachable_eq)
  have a: "\<forall>v i. nodeMap ?g v = Some (True, i) \<longleftrightarrow> nodeMap g v = Some (True, i) \<and> i \<in> reach g"
    using assms(2) by (auto simp: present_fold_remove_unvisited)
  have b: "sources g = [] \<longrightarrow> (\<forall>v. fst (nodeMap_at ?g v) = False) \<and> getNodes ?g = []"
  proof
    assume "sources g = []"
    then have "reach g = {}" by (simp add: reach_def)
    then have n: "\<forall>v i. nodeMap ?g v \<noteq> Some (True, i)" using a by simp
    have f: "\<forall>v. fst (nodeMap_at ?g v) = False"
    proof
      fix v show "fst (nodeMap_at ?g v) = False"
        using n by (cases "nodeMap ?g v") (auto simp: nodeMap_at_def)
    qed
    then show "(\<forall>v. fst (nodeMap_at ?g v) = False) \<and> getNodes ?g = []"
      by (simp add: getNodes_def)
  qed
  show ?thesis using r a b by blast
qed

theorem removeNonReachable_keeps_reachable_witness:
  "graph_state (removeNode 2 (addEdge 2 3 (addEdge 1 2 (addNode (1::nat) True empty_graph)))) \<and>
   set [3, 2, 1] = dom (nodeMap (removeNode 2 (addEdge 2 3 (addEdge 1 2 (addNode (1::nat) True empty_graph))))) \<and>
   (\<exists>g'. removeNonReachable [3, 2, 1]
            (removeNode 2 (addEdge 2 3 (addEdge 1 2 (addNode (1::nat) True empty_graph)))) = Some g' \<and>
         getNodes g' = [1])"
proof -
  let ?g = "removeNode 2 (addEdge 2 3 (addEdge 1 2 (addNode (1::nat) True empty_graph)))"
  have h: "graph_state ?g"
    by (intro gs_removeNode gs_addEdge gs_addNode gs_empty)
  have k: "set [3, 2, 1] = dom (nodeMap ?g)"
    by (auto simp: graph_eval split: if_splits)
  have e: "getNodes (the (removeNonReachable [3, 2, 1] ?g)) = [1]"
    by (simp add: graph_eval removeNonReachable_def reach_loop.simps push_unvisited_def
        remove_unvisited_def)
  show ?thesis
    using h k e removeNonReachable_keeps_reachable[OF h k] by auto
qed

subsection \<open>Re-insertion through \<open>addEdge\<close>\<close>

lemma addEdge_shape:
  assumes inv: "graph_inv g"
  shows "\<exists>si di. nodeMap (addEdge src dest g) src = Some (True, si) \<and>
           nodeMap (addEdge src dest g) dest = Some (True, di) \<and>
           (\<forall>p i. nodeMap g src = Some (p, i) \<longrightarrow> si = i) \<and>
           (\<forall>p i. nodeMap g dest = Some (p, i) \<longrightarrow> di = i) \<and>
           (si = di \<longleftrightarrow> src = dest) \<and>
           adjList (addEdge src dest g) = (adjList g)(si := insort_insert di (adjList g si)) \<and>
           revAdjList (addEdge src dest g) = (revAdjList g)(di := insort_insert si (revAdjList g di)) \<and>
           nodes (addEdge src dest g) ! si = src \<and> si < length (nodes (addEdge src dest g)) \<and>
           nodes (addEdge src dest g) ! di = dest \<and> di < length (nodes (addEdge src dest g))"
proof -
  let ?g1 = "addNode src False g"
  let ?g2 = "addNode dest False ?g1"
  have inv1: "graph_inv ?g1" using inv by (rule graph_inv_addNode)
  have inv2: "graph_inv ?g2" using inv1 by (rule graph_inv_addNode)
  obtain si where s: "nodeMap ?g2 src = Some (True, si)"
    by (cases "src = dest") (auto simp: nodeMap_addNode)
  obtain di where d: "nodeMap ?g2 dest = Some (True, di)"
    by (auto simp: nodeMap_addNode)
  have adj2: "adjList ?g2 = adjList g" "revAdjList ?g2 = revAdjList g"
    using adjList_addNode[OF inv] adjList_addNode[OF inv1] by simp_all
  have e: "addEdge src dest g =
      ?g2\<lparr>adjList := (adjList g)(si := insort_insert di (adjList g si)),
          revAdjList := (revAdjList g)(di := insort_insert si (revAdjList g di))\<rparr>"
    using addEdge_eq[OF s d] adj2 by simp
  have nm: "nodeMap (addEdge src dest g) = nodeMap ?g2" by (rule nodeMap_addEdge)
  have ks: "\<forall>p i. nodeMap g src = Some (p, i) \<longrightarrow> si = i"
    using s by (auto simp: nodeMap_addNode split: if_splits)
  have kd: "\<forall>p i. nodeMap g dest = Some (p, i) \<longrightarrow> di = i"
    using d by (auto simp: nodeMap_addNode split: if_splits)
  have eq: "si = di \<longleftrightarrow> src = dest"
    using inv_id_inj[OF inv2 s] d s by auto
  have n: "nodes ?g2 ! si = src" "si < length (nodes ?g2)"
    "nodes ?g2 ! di = dest" "di < length (nodes ?g2)"
    using inv_id_nth[OF inv2 s] inv_id_bound[OF inv2 s]
      inv_id_nth[OF inv2 d] inv_id_bound[OF inv2 d] by simp_all
  have "adjList (addEdge src dest g) = (adjList g)(si := insort_insert di (adjList g si))"
    "revAdjList (addEdge src dest g) = (revAdjList g)(di := insort_insert si (revAdjList g di))"
    by (simp_all add: e)
  then show ?thesis using s d ks kd eq n nm by (simp add: nodes_addEdge)
qed

text \<open>
  Claim C10. In every state of a graph, if \<open>src\<close> is known but removed, then after
  \<open>addEdge src dest\<close> it is present again (it occurs in \<open>getNodes\<close>) under its old id
  \<open>i\<close>, the forward set of \<open>i\<close> holds the id of \<open>dest\<close> and nothing else, and the
  reverse set of \<open>i\<close> is empty (or holds \<open>i\<close> alone when \<open>dest = src\<close>). The same
  holds for a removed \<open>dest\<close>, with forward and reverse exchanged. No edge that an
  earlier removal deleted comes back.
\<close>

theorem addEdge_reactivates_endpoints:
  assumes "graph_state g"
  shows "(nodeMap g src = Some (False, i) \<longrightarrow>
            nodeMap (addEdge src dest g) src = Some (True, i) \<and>
            src \<in> set (getNodes (addEdge src dest g)) \<and>
            adjList (addEdge src dest g) i = [snd (nodeMap_at (addEdge src dest g) dest)] \<and>
            revAdjList (addEdge src dest g) i = (if dest = src then [i] else [])) \<and>
         (nodeMap g dest = Some (False, j) \<longrightarrow>
            nodeMap (addEdge src dest g) dest = Some (True, j) \<and>
            dest \<in> set (getNodes (addEdge src dest g)) \<and>
            revAdjList (addEdge src dest g) j = [snd (nodeMap_at (addEdge src dest g) src)] \<and>
            adjList (addEdge src dest g) j = (if src = dest then [j] else []))"
proof -
  have inv: "graph_inv g" using assms by (rule graph_state_inv)
  let ?g = "addEdge src dest g"
  obtain si di where sh: "nodeMap ?g src = Some (True, si)" "nodeMap ?g dest = Some (True, di)"
    "\<forall>p i. nodeMap g src = Some (p, i) \<longrightarrow> si = i"
    "\<forall>p i. nodeMap g dest = Some (p, i) \<longrightarrow> di = i"
    "si = di \<longleftrightarrow> src = dest"
    "adjList ?g = (adjList g)(si := insort_insert di (adjList g si))"
    "revAdjList ?g = (revAdjList g)(di := insort_insert si (revAdjList g di))"
    "nodes ?g ! si = src" "si < length (nodes ?g)"
    "nodes ?g ! di = dest" "di < length (nodes ?g)"
    using addEdge_shape[OF inv, of src dest] by blast
  have ms: "src \<in> set (getNodes ?g)"
    using sh(1,8,9) nth_mem[OF sh(9)] by (simp add: getNodes_def nodeMap_at_def)
  have md: "dest \<in> set (getNodes ?g)"
    using sh(2,10,11) nth_mem[OF sh(11)] by (simp add: getNodes_def nodeMap_at_def)
  have a: "nodeMap g src = Some (False, i) \<longrightarrow>
            nodeMap ?g src = Some (True, i) \<and> src \<in> set (getNodes ?g) \<and>
            adjList ?g i = [snd (nodeMap_at ?g dest)] \<and>
            revAdjList ?g i = (if dest = src then [i] else [])"
  proof
    assume k: "nodeMap g src = Some (False, i)"
    have si: "si = i" using sh(3) k by blast
    have iso: "adjList g i = []" "revAdjList g i = []"
      using inv_inactive_isolated[OF inv k] by simp_all
    show "nodeMap ?g src = Some (True, i) \<and> src \<in> set (getNodes ?g) \<and>
            adjList ?g i = [snd (nodeMap_at ?g dest)] \<and>
            revAdjList ?g i = (if dest = src then [i] else [])"
      using sh(1,2,5) ms si iso
      by (auto simp: sh(6,7) nodeMap_at_def insort_insert_key_def)
  qed
  have b: "nodeMap g dest = Some (False, j) \<longrightarrow>
            nodeMap ?g dest = Some (True, j) \<and> dest \<in> set (getNodes ?g) \<and>
            revAdjList ?g j = [snd (nodeMap_at ?g src)] \<and>
            adjList ?g j = (if src = dest then [j] else [])"
  proof
    assume k: "nodeMap g dest = Some (False, j)"
    have di: "di = j" using sh(4) k by blast
    have iso: "adjList g j = []" "revAdjList g j = []"
      using inv_inactive_isolated[OF inv k] by simp_all
    show "nodeMap ?g dest = Some (True, j) \<and> dest \<in> set (getNodes ?g) \<and>
            revAdjList ?g j = [snd (nodeMap_at ?g src)] \<and>
            adjList ?g j = (if src = dest then [j] else [])"
      using sh(1,2,5) md di iso
      by (auto simp: sh(6,7) nodeMap_at_def insort_insert_key_def)
  qed
  show ?thesis using a b by simp
qed

theorem addEdge_reactivates_endpoints_witness:
  "graph_state (removeNode 2 (addEdge 2 3 (addEdge (1::nat) 2 empty_graph))) \<and>
   nodeMap (removeNode 2 (addEdge 2 3 (addEdge (1::nat) 2 empty_graph))) 2 = Some (False, 1) \<and>
   nodeMap (addEdge 2 3 (removeNode 2 (addEdge 2 3 (addEdge (1::nat) 2 empty_graph)))) 2
     = Some (True, 1) \<and>
   adjList (addEdge 2 3 (removeNode 2 (addEdge 2 3 (addEdge (1::nat) 2 empty_graph)))) 1 = [2] \<and>
   revAdjList (addEdge 2 3 (removeNode 2 (addEdge 2 3 (addEdge (1::nat) 2 empty_graph)))) 1 = []"
proof -
  let ?g = "removeNode 2 (addEdge 2 3 (addEdge (1::nat) 2 empty_graph))"
  have h: "graph_state ?g"
    by (intro gs_removeNode gs_addEdge gs_empty)
  have k: "nodeMap ?g 2 = Some (False, 1)"
    by (simp add: graph_eval)
  have d: "snd (nodeMap_at (addEdge 2 3 ?g) 3) = 2"
    by (simp add: graph_eval)
  show ?thesis
    using h k d addEdge_reactivates_endpoints[OF h, of 2 1 3 0] by simp
qed

subsection \<open>Re-insertion after removal\<close>

lemma isConnected_iff:
  "isConnected a b g =
     (\<exists>p i q j. nodeMap g a = Some (p, i) \<and> nodeMap g b = Some (q, j) \<and> j \<in> set (adjList g i))"
  by (cases "nodeMap g a"; cases "nodeMap g b") (auto simp: isConnected_def nodeMap_at_def)

lemma addEdge_removed_endpoints:
  assumes inv: "graph_inv g"
  shows "(nodeMap g src = Some (False, i) \<longrightarrow>
            nodeMap (addEdge src dest g) src = Some (True, i) \<and>
            src \<in> set (getNodes (addEdge src dest g)) \<and>
            adjList (addEdge src dest g) i = [snd (nodeMap_at (addEdge src dest g) dest)] \<and>
            revAdjList (addEdge src dest g) i = (if dest = src then [i] else []) \<and>
            (\<forall>x. isConnected src x (addEdge src dest g) = (x = dest)) \<and>
            (\<forall>x. isConnected x src (addEdge src dest g) = (x = src \<and> dest = src))) \<and>
         (nodeMap g dest = Some (False, j) \<longrightarrow>
            nodeMap (addEdge src dest g) dest = Some (True, j) \<and>
            dest \<in> set (getNodes (addEdge src dest g)) \<and>
            revAdjList (addEdge src dest g) j = [snd (nodeMap_at (addEdge src dest g) src)] \<and>
            adjList (addEdge src dest g) j = (if src = dest then [j] else []) \<and>
            (\<forall>x. isConnected x dest (addEdge src dest g) = (x = src)) \<and>
            (\<forall>x. isConnected dest x (addEdge src dest g) = (x = dest \<and> src = dest)))"
proof -
  let ?g = "addEdge src dest g"
  have inv': "graph_inv ?g" using inv by (rule graph_inv_addEdge)
  obtain si di where sh: "nodeMap ?g src = Some (True, si)" "nodeMap ?g dest = Some (True, di)"
    "\<forall>p i. nodeMap g src = Some (p, i) \<longrightarrow> si = i"
    "\<forall>p i. nodeMap g dest = Some (p, i) \<longrightarrow> di = i"
    "si = di \<longleftrightarrow> src = dest"
    "adjList ?g = (adjList g)(si := insort_insert di (adjList g si))"
    "revAdjList ?g = (revAdjList g)(di := insort_insert si (revAdjList g di))"
    "nodes ?g ! si = src" "si < length (nodes ?g)"
    "nodes ?g ! di = dest" "di < length (nodes ?g)"
    using addEdge_shape[OF inv, of src dest] by blast
  have ms: "src \<in> set (getNodes ?g)"
    using sh(1,8,9) nth_mem[OF sh(9)] by (simp add: getNodes_def nodeMap_at_def)
  have md: "dest \<in> set (getNodes ?g)"
    using sh(2,10,11) nth_mem[OF sh(11)] by (simp add: getNodes_def nodeMap_at_def)
  have idsrc: "\<And>x p. nodeMap ?g x = Some (p, si) \<longleftrightarrow> (x = src \<and> p)"
  proof
    fix x p assume h: "nodeMap ?g x = Some (p, si)"
    then have "x = src" by (rule inv_id_inj[OF inv' _ sh(1)])
    then show "x = src \<and> p" using h sh(1) by simp
  next
    fix x p assume "x = src \<and> p"
    then show "nodeMap ?g x = Some (p, si)" using sh(1) by simp
  qed
  have iddst: "\<And>x p. nodeMap ?g x = Some (p, di) \<longleftrightarrow> (x = dest \<and> p)"
  proof
    fix x p assume h: "nodeMap ?g x = Some (p, di)"
    then have "x = dest" by (rule inv_id_inj[OF inv' _ sh(2)])
    then show "x = dest \<and> p" using h sh(2) by simp
  next
    fix x p assume "x = dest \<and> p"
    then show "nodeMap ?g x = Some (p, di)" using sh(2) by simp
  qed
  have a: "nodeMap g src = Some (False, i) \<longrightarrow>
            nodeMap ?g src = Some (True, i) \<and> src \<in> set (getNodes ?g) \<and>
            adjList ?g i = [snd (nodeMap_at ?g dest)] \<and>
            revAdjList ?g i = (if dest = src then [i] else []) \<and>
            (\<forall>x. isConnected src x ?g = (x = dest)) \<and>
            (\<forall>x. isConnected x src ?g = (x = src \<and> dest = src))"
  proof
    assume k: "nodeMap g src = Some (False, i)"
    have si: "si = i" using sh(3) k by blast
    have iso: "adjList g si = []" "revAdjList g si = []"
      using inv_inactive_isolated[OF inv k] si by simp_all
    have 1: "adjList ?g si = [di]" using iso by (simp add: sh(6) insort_insert_key_def)
    have 2: "revAdjList ?g si = (if dest = src then [si] else [])"
      using iso sh(5) by (auto simp: sh(7) insort_insert_key_def)
    have 3: "\<forall>x. isConnected src x ?g = (x = dest)"
      by (auto simp: isConnected_iff sh(1) iddst 1)
    have 4: "\<forall>x. isConnected x src ?g = (x = src \<and> dest = src)"
    proof (cases "dest = src")
      case True
      have r: "revAdjList ?g si = [si]" using 2 True by simp
      have "\<forall>x. isConnected x src ?g = (x = src)"
        by (auto simp: isConnected_iff sh(1) inv_sym[OF inv'] idsrc r)
      then show ?thesis using True by simp
    next
      case False
      have r: "revAdjList ?g si = []" using 2 False by simp
      have "\<forall>x. isConnected x src ?g = False"
        by (auto simp: isConnected_iff sh(1) inv_sym[OF inv'] r)
      then show ?thesis using False by simp
    qed
    show "nodeMap ?g src = Some (True, i) \<and> src \<in> set (getNodes ?g) \<and>
            adjList ?g i = [snd (nodeMap_at ?g dest)] \<and>
            revAdjList ?g i = (if dest = src then [i] else []) \<and>
            (\<forall>x. isConnected src x ?g = (x = dest)) \<and>
            (\<forall>x. isConnected x src ?g = (x = src \<and> dest = src))"
      using sh(1,2) ms si 1 2 3 4 by (simp add: nodeMap_at_def)
  qed
  have b: "nodeMap g dest = Some (False, j) \<longrightarrow>
            nodeMap ?g dest = Some (True, j) \<and> dest \<in> set (getNodes ?g) \<and>
            revAdjList ?g j = [snd (nodeMap_at ?g src)] \<and>
            adjList ?g j = (if src = dest then [j] else []) \<and>
            (\<forall>x. isConnected x dest ?g = (x = src)) \<and>
            (\<forall>x. isConnected dest x ?g = (x = dest \<and> src = dest))"
  proof
    assume k: "nodeMap g dest = Some (False, j)"
    have di: "di = j" using sh(4) k by blast
    have iso: "adjList g di = []" "revAdjList g di = []"
      using inv_inactive_isolated[OF inv k] di by simp_all
    have 1: "revAdjList ?g di = [si]" using iso by (simp add: sh(7) insort_insert_key_def)
    have 2: "adjList ?g di = (if src = dest then [di] else [])"
      using iso sh(5) by (auto simp: sh(6) insort_insert_key_def)
    have 3: "\<forall>x. isConnected x dest ?g = (x = src)"
      by (auto simp: isConnected_iff sh(2) inv_sym[OF inv'] idsrc 1)
    have 4: "\<forall>x. isConnected dest x ?g = (x = dest \<and> src = dest)"
    proof (cases "src = dest")
      case True
      have r: "adjList ?g di = [di]" using 2 True by simp
      have "\<forall>x. isConnected dest x ?g = (x = dest)"
        by (auto simp: isConnected_iff sh(2) iddst r)
      then show ?thesis using True by simp
    next
      case False
      have r: "adjList ?g di = []" using 2 False by simp
      have "\<forall>x. isConnected dest x ?g = False"
        by (auto simp: isConnected_iff sh(2) r)
      then show ?thesis using False by simp
    qed
    show "nodeMap ?g dest = Some (True, j) \<and> dest \<in> set (getNodes ?g) \<and>
            revAdjList ?g j = [snd (nodeMap_at ?g src)] \<and>
            adjList ?g j = (if src = dest then [j] else []) \<and>
            (\<forall>x. isConnected x dest ?g = (x = src)) \<and>
            (\<forall>x. isConnected dest x ?g = (x = dest \<and> src = dest))"
      using sh(1,2) md di 1 2 3 4 by (simp add: nodeMap_at_def)
  qed
  show ?thesis using a b by simp
qed

text \<open>
  Claim C6 says that after \<open>removeNode v\<close> any re-insertion of \<open>v\<close> leaves both adjacency
  sets of \<open>v\<close> empty. For re-insertion by \<open>addNode\<close> this is so. A re-insertion by
  \<open>addEdge\<close> inserts its own edge after it has made \<open>v\<close> present again, so one of the two
  sets is not empty: here \<open>2\<close> had the edges \<open>1 \<rightarrow> 2\<close> and \<open>2 \<rightarrow> 3\<close>, it is removed, and
  \<open>addEdge 2 3\<close> leaves the forward set of its id with one element.
\<close>

theorem reinsertion_by_addEdge_counterexample:
  "graph_state (addEdge 2 3 (addEdge (1::nat) 2 empty_graph)) \<and>
   nodeMap (addEdge 2 3 (addEdge (1::nat) 2 empty_graph)) 2 = Some (True, 1) \<and>
   isConnected 1 2 (addEdge 2 3 (addEdge (1::nat) 2 empty_graph)) \<and>
   isConnected 2 3 (addEdge 2 3 (addEdge (1::nat) 2 empty_graph)) \<and>
   nodeMap (addEdge 2 3 (removeNode 2 (addEdge 2 3 (addEdge (1::nat) 2 empty_graph)))) 2
     = Some (True, 1) \<and>
   adjList (addEdge 2 3 (removeNode 2 (addEdge 2 3 (addEdge (1::nat) 2 empty_graph)))) 1 = [2] \<and>
   adjList (addEdge 2 3 (removeNode 2 (addEdge 2 3 (addEdge (1::nat) 2 empty_graph)))) 1 \<noteq> []"
proof -
  have "graph_state (addEdge 2 3 (addEdge (1::nat) 2 empty_graph))"
    by (intro gs_addEdge gs_empty)
  then show ?thesis
    by (simp add: graph_eval)
qed

text \<open>
  Claim C6, amended. For every known value \<open>v\<close> with id \<open>i\<close>, in every state of a graph:
  \<open>removeNode v\<close> followed by \<open>addNode v\<close> (with either value of \<open>isSource\<close>) gives a
  state in which \<open>v\<close> is present again under the id \<open>i\<close> and both adjacency sets of \<open>i\<close>
  are empty. \<open>removeNode v\<close> followed by \<open>addEdge v w\<close> or \<open>addEdge w v\<close> gives a state
  in which \<open>v\<close> is present again under the id \<open>i\<close> and the adjacency sets of \<open>i\<close> hold
  the edge just added and nothing else. In all three cases no edge from or to \<open>v\<close> that
  the removal deleted exists afterwards, whatever edges \<open>v\<close> had before.
\<close>

theorem reinsertion_does_not_restore_edges:
  assumes "graph_state g" and "nodeMap g v = Some (p, i)"
  shows "nodeMap (addNode v isSource (removeNode v g)) v = Some (True, i) \<and>
         v \<in> set (getNodes (addNode v isSource (removeNode v g))) \<and>
         adjList (addNode v isSource (removeNode v g)) i = [] \<and>
         revAdjList (addNode v isSource (removeNode v g)) i = [] \<and>
         (\<forall>x. isConnected v x (addNode v isSource (removeNode v g)) = False \<and>
              isConnected x v (addNode v isSource (removeNode v g)) = False) \<and>
         nodeMap (addEdge v w (removeNode v g)) v = Some (True, i) \<and>
         v \<in> set (getNodes (addEdge v w (removeNode v g))) \<and>
         adjList (addEdge v w (removeNode v g)) i
           = [snd (nodeMap_at (addEdge v w (removeNode v g)) w)] \<and>
         revAdjList (addEdge v w (removeNode v g)) i = (if w = v then [i] else []) \<and>
         (\<forall>x. isConnected v x (addEdge v w (removeNode v g)) = (x = w)) \<and>
         (\<forall>x. isConnected x v (addEdge v w (removeNode v g)) = (x = v \<and> w = v)) \<and>
         nodeMap (addEdge w v (removeNode v g)) v = Some (True, i) \<and>
         v \<in> set (getNodes (addEdge w v (removeNode v g))) \<and>
         revAdjList (addEdge w v (removeNode v g)) i
           = [snd (nodeMap_at (addEdge w v (removeNode v g)) w)] \<and>
         adjList (addEdge w v (removeNode v g)) i = (if w = v then [i] else []) \<and>
         (\<forall>x. isConnected x v (addEdge w v (removeNode v g)) = (x = w)) \<and>
         (\<forall>x. isConnected v x (addEdge w v (removeNode v g)) = (x = v \<and> w = v))"
proof -
  have inv: "graph_inv g" using assms(1) by (rule graph_state_inv)
  let ?r = "removeNode v g"
  let ?g = "addNode v isSource ?r"
  have invr: "graph_inv ?r" using inv by (rule graph_inv_removeNode)
  have nmr: "nodeMap ?r v = Some (False, i)" using assms(2) by (simp add: nodeMap_removeNode)
  have nm: "nodeMap ?g v = Some (True, i)" using nmr by (simp add: nodeMap_addNode)
  have adj: "adjList ?g = (\<lambda>k. if k = i then [] else removeAll i (adjList g k))"
    using adjList_addNode(1)[OF invr] by (simp add: removeNode_eq[OF inv assms(2)])
  have radj: "revAdjList ?g = (\<lambda>k. if k = i then [] else removeAll i (revAdjList g k))"
    using adjList_addNode(2)[OF invr] by (simp add: removeNode_eq[OF inv assms(2)])
  have "v \<in> set (nodes g)" using inv_known_iff[OF inv, of v] assms(2) by simp
  then have "v \<in> set (nodes ?g)" using nmr by (simp add: nodes_addNode nodes_removeNode)
  then have 1: "v \<in> set (getNodes ?g)" using nm by (simp add: getNodes_def nodeMap_at_def)
  have 2: "\<forall>x. isConnected v x ?g = False \<and> isConnected x v ?g = False"
    using nm by (simp add: isConnected_def nodeMap_at_def adj)
  have n: "nodeMap ?g v = Some (True, i) \<and> v \<in> set (getNodes ?g) \<and>
         adjList ?g i = [] \<and> revAdjList ?g i = [] \<and>
         (\<forall>x. isConnected v x ?g = False \<and> isConnected x v ?g = False)"
    using nm 1 2 by (simp add: adj radj)
  have s: "nodeMap (addEdge v w ?r) v = Some (True, i) \<and>
         v \<in> set (getNodes (addEdge v w ?r)) \<and>
         adjList (addEdge v w ?r) i = [snd (nodeMap_at (addEdge v w ?r) w)] \<and>
         revAdjList (addEdge v w ?r) i = (if w = v then [i] else []) \<and>
         (\<forall>x. isConnected v x (addEdge v w ?r) = (x = w)) \<and>
         (\<forall>x. isConnected x v (addEdge v w ?r) = (x = v \<and> w = v))"
    using addEdge_removed_endpoints[OF invr, of v i w 0] nmr by simp
  have d: "nodeMap (addEdge w v ?r) v = Some (True, i) \<and>
         v \<in> set (getNodes (addEdge w v ?r)) \<and>
         revAdjList (addEdge w v ?r) i = [snd (nodeMap_at (addEdge w v ?r) w)] \<and>
         adjList (addEdge w v ?r) i = (if w = v then [i] else []) \<and>
         (\<forall>x. isConnected x v (addEdge w v ?r) = (x = w)) \<and>
         (\<forall>x. isConnected v x (addEdge w v ?r) = (x = v \<and> w = v))"
    using addEdge_removed_endpoints[OF invr, of w 0 v i] nmr by simp
  show ?thesis using n s d by simp
qed

theorem reinsertion_does_not_restore_edges_witness:
  "graph_state (addEdge 2 3 (addEdge (1::nat) 2 empty_graph)) \<and>
   nodeMap (addEdge 2 3 (addEdge (1::nat) 2 empty_graph)) 2 = Some (True, 1) \<and>
   isConnected 1 2 (addEdge 2 3 (addEdge (1::nat) 2 empty_graph)) \<and>
   isConnected 2 3 (addEdge 2 3 (addEdge (1::nat) 2 empty_graph)) \<and>
   nodeMap (addNode 2 False (removeNode 2 (addEdge 2 3 (addEdge (1::nat) 2 empty_graph)))) 2
     = Some (True, 1) \<and>
   adjList (addNode 2 False (removeNode 2 (addEdge 2 3 (addEdge (1::nat) 2 empty_graph)))) 1 = [] \<and>
   revAdjList (addNode 2 False (removeNode 2 (addEdge 2 3 (addEdge (1::nat) 2 empty_graph)))) 1 = [] \<and>
   adjList (addEdge 2 3 (removeNode 2 (addEdge 2 3 (addEdge (1::nat) 2 empty_graph)))) 1 = [2] \<and>
   revAdjList (addEdge 2 3 (removeNode 2 (addEdge 2 3 (addEdge (1::nat) 2 empty_graph)))) 1 = [] \<and>
   isConnected 1 2 (addEdge 2 3 (removeNode 2 (addEdge 2 3 (addEdge (1::nat) 2 empty_graph)))) = False"
proof -
  have h: "graph_state (addEdge 2 3 (addEdge (1::nat) 2 empty_graph))"
    by (intro gs_addEdge gs_empty)
  have k: "nodeMap (addEdge 2 3 (addEdge (1::nat) 2 empty_graph)) 2 = Some (True, 1)"
    by (simp add: graph_eval)
  have e: "isConnected 1 2 (addEdge 2 3 (addEdge (1::nat) 2 empty_graph))"
    "isConnected 2 3 (addEdge 2 3 (addEdge (1::nat) 2 empty_graph))"
    by (simp_all add: graph_eval)
  have d: "snd (nodeMap_at (addEdge 2 3 (removeNode 2 (addEdge 2 3 (addEdge (1::nat) 2 empty_graph)))) 3) = 2"
    by (simp add: graph_eval)
  show ?thesis
    using h k e d reinsertion_does_not_restore_edges[OF h k, of False 3] by simp
qed

subsection \<open>Topological sort\<close>

lemma precedes_append:
  "precedes a b (xs @ ys) =
     (precedes a b xs \<or> precedes a b ys \<or> (a \<in> set xs \<and> b \<in> set ys))"
  by (induction xs) auto

lemma precedes_rev: "precedes a b (rev xs) = precedes b a xs"
  by (induction xs) (auto simp: precedes_append)

lemma precedes_map: "precedes a b xs \<Longrightarrow> precedes (f a) (f b) (map f xs)"
  by (induction xs) auto

lemma precedes_in_set: "precedes a b xs \<Longrightarrow> a \<in> set xs \<and> b \<in> set xs"
  by (induction xs) auto

lemma precedes_asym: "distinct xs \<Longrightarrow> precedes a b xs \<Longrightarrow> \<not> precedes b a xs"
  by (induction xs) (auto dest: precedes_in_set)

lemma post_ordered_precedes:
  "post_ordered E D xs \<Longrightarrow> x \<in> set xs \<Longrightarrow> (x, y) \<in> E \<Longrightarrow> (y, x) \<notin> E\<^sup>* \<Longrightarrow>
   y \<in> D \<or> precedes y x xs"
proof (induction xs arbitrary: D)
  case Nil
  then show ?case by simp
next
  case (Cons z zs)
  show ?case
  proof (cases "x = z")
    case True
    then show ?thesis using Cons.prems by auto
  next
    case False
    then have xin: "x \<in> set zs" using Cons.prems(2) by simp
    have "post_ordered E (insert z D) zs" using Cons.prems(1) by simp
    then have "y \<in> insert z D \<or> precedes y x zs"
      using Cons.IH xin Cons.prems(3,4) by blast
    then show ?thesis using xin by auto
  qed
qed

lemma inv_reach_bound:
  assumes "graph_inv g" shows "reach g \<subseteq> {..<length (nodes g)}"
proof
  fix y assume "y \<in> reach g"
  then obtain x where x: "x \<in> set (sources g)" "(x, y) \<in> (edges g)\<^sup>*"
    by (auto simp: reach_def)
  have x0: "x < length (nodes g)" using assms x(1) by (auto simp: graph_inv_def)
  have e: "\<And>a b. (a, b) \<in> edges g \<Longrightarrow> b < length (nodes g)"
    using inv_edge_bound[OF assms] by (simp add: edges_def)
  from x(2) have "y < length (nodes g)"
  proof (induction rule: rtrancl_induct)
    case base
    show ?case by (rule x0)
  next
    case (step y z)
    show ?case using e[OF step.hyps(2)] .
  qed
  then show "y \<in> {..<length (nodes g)}" by simp
qed

lemma topologicalSort_ids:
  assumes inv: "graph_inv g" and depth: "length (nodes g) \<le> depth"
  shows "\<exists>ids. topologicalSort depth g reverseOrder =
             Some (if reverseOrder then map (\<lambda>i. nodes g ! i) ids
                   else rev (map (\<lambda>i. nodes g ! i) ids)) \<and>
           distinct ids \<and> set ids = reach g \<and> post_ordered (edges g) {} ids"
proof -
  let ?n = "length (nodes g)"
  have bound: "\<forall>s. \<forall>d\<in>set (adjList g s). d < ?n"
    using inv inv_edge_bound by blast
  have src: "set (sources g) \<subseteq> {..<?n}" using inv by (simp add: graph_inv_def)
  have c: "card ({..<?n} - {}) \<le> depth" using depth by simp
  obtain ids where i: "dfs_each g depth (sources g) ({}, [])
        = Some ({} \<union> set ids, [] @ map (\<lambda>i. nodes g ! i) ids)"
    "distinct ids" "set ids \<inter> {} = {}" "set (sources g) \<subseteq> {} \<union> set ids"
    "set ids \<subseteq> (edges g)\<^sup>* `` set (sources g)"
    "\<forall>x\<in>set ids. set (adjList g x) \<subseteq> {} \<union> set ids"
    "post_ordered (edges g) {} ids"
    by (rule dfs_okE[OF dfs_each_ok[of g depth "sources g" "{}" "[]", OF dfs_ok_all[OF bound] src c]])
  have "(edges g)\<^sup>* `` set (sources g) \<subseteq> set ids"
  proof
    fix y assume "y \<in> (edges g)\<^sup>* `` set (sources g)"
    then obtain x where x: "x \<in> set (sources g)" "(x, y) \<in> (edges g)\<^sup>*" by blast
    from x(2) show "y \<in> set ids"
    proof (induction rule: rtrancl_induct)
      case base
      show ?case using x(1) i(4) by auto
    next
      case (step y z)
      then show ?case using i(6) by (auto simp: edges_def)
    qed
  qed
  then have r: "set ids = reach g" using i(5) by (auto simp: reach_def)
  have "topologicalSort depth g reverseOrder =
             Some (if reverseOrder then map (\<lambda>i. nodes g ! i) ids
                   else rev (map (\<lambda>i. nodes g ! i) ids))"
    using i(1) by (simp add: topologicalSort_def)
  then show ?thesis using i(2,7) r by blast
qed

lemma inv_distinct_values:
  assumes inv: "graph_inv g" and d: "distinct ids" and b: "set ids \<subseteq> {..<length (nodes g)}"
  shows "distinct (map (\<lambda>i. nodes g ! i) ids)"
proof -
  have "distinct (nodes g)" using inv by (simp add: graph_inv_def)
  then have "inj_on (\<lambda>i. nodes g ! i) (set ids)"
    using b unfolding inj_on_def
    by (metis lessThan_iff nth_eq_iff_index_eq subsetD)
  then show ?thesis using d by (simp add: distinct_map)
qed

lemma inv_value_of_id:
  assumes inv: "graph_inv g"
  shows "(v \<in> (\<lambda>i. nodes g ! i) ` reach g) = (\<exists>p i. nodeMap g v = Some (p, i) \<and> i \<in> reach g)"
proof
  assume "v \<in> (\<lambda>i. nodes g ! i) ` reach g"
  then obtain i where i: "i \<in> reach g" "v = nodes g ! i" by blast
  then have "i < length (nodes g)" using inv_reach_bound[OF inv] by auto
  then show "\<exists>p i. nodeMap g v = Some (p, i) \<and> i \<in> reach g"
    using inv_nth_id[OF inv, of i] i by auto
next
  assume "\<exists>p i. nodeMap g v = Some (p, i) \<and> i \<in> reach g"
  then obtain p i where i: "nodeMap g v = Some (p, i)" "i \<in> reach g" by blast
  then have "nodes g ! i = v" using inv_id_nth[OF inv] by simp
  then show "v \<in> (\<lambda>i. nodes g ! i) ` reach g" using i(2) by force
qed

lemma inv_removed_reach:
  assumes inv: "graph_inv g" and k: "nodeMap g v = Some (False, i)"
  shows "i \<in> reach g \<longleftrightarrow> i \<in> set (sources g)"
proof
  assume "i \<in> reach g"
  then obtain x where x: "x \<in> set (sources g)" "(x, i) \<in> (edges g)\<^sup>*"
    by (auto simp: reach_def)
  from x(2) show "i \<in> set (sources g)"
  proof (cases rule: rtranclE)
    case base
    then show ?thesis using x(1) by simp
  next
    case (step y)
    then have "y \<in> set (revAdjList g i)"
      using inv_sym[OF inv] by (simp add: edges_def)
    then show ?thesis using inv_inactive_isolated(2)[OF inv k] by simp
  qed
next
  assume "i \<in> set (sources g)"
  then show "i \<in> reach g" by (auto simp: reach_def)
qed

text \<open>
  Claim C1. The result of \<open>topologicalSort\<close> is to hold exactly the values that are
  present and reachable from the sources, each once, and no removed value. The source
  has the flag in \<open>nodeMap\<close> for this (its comment: whether the node is still present in
  the graph), and \<open>getNodes\<close>, \<open>print\<close> and the last loop of \<open>removeNonReachable\<close> read
  it. \<open>topologicalSort\<close> does not: it starts a traversal from every id of \<open>sources\<close>,
  \<open>removeNode\<close> leaves \<open>sources\<close> as it is, and so a source that has been removed is
  still returned. Below, the only value of the graph is a source and is removed:
  \<open>getNodes\<close> is empty, and \<open>topologicalSort\<close> returns the removed value, with either
  value of \<open>reverseOrder\<close>.
\<close>

theorem topologicalSort_returns_removed_source:
  "graph_state (removeNode (0::nat) (addNode 0 True empty_graph)) \<and>
   nodeMap (removeNode (0::nat) (addNode 0 True empty_graph)) 0 = Some (False, 0) \<and>
   getNodes (removeNode (0::nat) (addNode 0 True empty_graph)) = [] \<and>
   topologicalSort 1 (removeNode (0::nat) (addNode 0 True empty_graph)) False = Some [0] \<and>
   topologicalSort 1 (removeNode (0::nat) (addNode 0 True empty_graph)) True = Some [0]"
proof -
  have "graph_state (removeNode (0::nat) (addNode 0 True empty_graph))"
    by (intro gs_removeNode gs_addNode gs_empty)
  then show ?thesis
    by (simp add: graph_eval topologicalSort_def)
qed

text \<open>
  What the traversal does compute, in every state of a graph and with either value of
  \<open>reverseOrder\<close>: it returns (given a recursion depth of at least \<open>length nodes\<close>), its
  result has no repetition, and a value occurs in it if and only if its id is reachable
  from the source ids along forward edges. So every present value with a reachable id
  occurs once and no value with an unreachable id occurs; the removed values that occur
  are the removed sources of the run above, and only they.
\<close>

theorem topologicalSort_covers_reachable_ids:
  assumes "graph_state g" and "length (nodes g) \<le> depth"
  shows "\<exists>res. topologicalSort depth g reverseOrder = Some res \<and>
           distinct res \<and>
           (\<forall>v. v \<in> set res \<longleftrightarrow> (\<exists>p i. nodeMap g v = Some (p, i) \<and> i \<in> reach g)) \<and>
           (\<forall>v i. nodeMap g v = Some (False, i) \<longrightarrow>
                  (v \<in> set res \<longleftrightarrow> i \<in> set (sources g)))"
proof -
  have inv: "graph_inv g" using assms(1) by (rule graph_state_inv)
  let ?f = "\<lambda>i. nodes g ! i"
  obtain ids where i: "topologicalSort depth g reverseOrder =
             Some (if reverseOrder then map ?f ids else rev (map ?f ids))"
    "distinct ids" "set ids = reach g"
    using topologicalSort_ids[OF inv assms(2), of reverseOrder] by blast
  let ?res = "if reverseOrder then map ?f ids else rev (map ?f ids)"
  have b: "set ids \<subseteq> {..<length (nodes g)}" using i(3) inv_reach_bound[OF inv] by simp
  have d: "distinct ?res" using inv_distinct_values[OF inv i(2) b] by simp
  have s: "set ?res = ?f ` reach g" using i(3) by auto
  have m: "\<forall>v. v \<in> set ?res \<longleftrightarrow> (\<exists>p i. nodeMap g v = Some (p, i) \<and> i \<in> reach g)"
    unfolding s using inv_value_of_id[OF inv] by blast
  have r: "\<forall>v i. nodeMap g v = Some (False, i) \<longrightarrow> (v \<in> set ?res \<longleftrightarrow> i \<in> set (sources g))"
  proof (intro allI impI)
    fix v i assume k: "nodeMap g v = Some (False, i)"
    have "v \<in> set ?res \<longleftrightarrow> i \<in> reach g" using m k by auto
    then show "v \<in> set ?res \<longleftrightarrow> i \<in> set (sources g)"
      using inv_removed_reach[OF inv k] by simp
  qed
  show ?thesis using i(1) d m r by blast
qed

theorem topologicalSort_covers_reachable_ids_witness:
  "graph_state (removeNode 3 (addEdge 4 5 (addEdge 1 3 (addEdge 1 2 (addNode (1::nat) True empty_graph))))) \<and>
   length (nodes (removeNode 3 (addEdge 4 5 (addEdge 1 3 (addEdge 1 2 (addNode (1::nat) True empty_graph)))))) \<le> 5 \<and>
   topologicalSort 5 (removeNode 3 (addEdge 4 5 (addEdge 1 3 (addEdge 1 2 (addNode (1::nat) True empty_graph))))) False
     = Some [1, 2] \<and>
   (\<exists>res. topologicalSort 5 (removeNode 3 (addEdge 4 5 (addEdge 1 3 (addEdge 1 2 (addNode (1::nat) True empty_graph))))) False
       = Some res \<and> distinct res)"
proof -
  let ?g = "removeNode 3 (addEdge 4 5 (addEdge 1 3 (addEdge 1 2 (addNode (1::nat) True empty_graph))))"
  have h: "graph_state ?g"
    by (intro gs_removeNode gs_addEdge gs_addNode gs_empty)
  have l: "length (nodes ?g) \<le> 5"
    by (simp add: graph_eval)
  have e: "topologicalSort 5 ?g False = Some [1, 2]"
    by (simp add: graph_eval topologicalSort_def eval_nat_numeral)
  show ?thesis
    using h l e topologicalSort_covers_reachable_ids[OF h l, of False] by auto
qed

text \<open>
  Claim C2. In every state of a graph in which no id reachable from the sources lies on a
  cycle of forward edges, for every edge \<open>a \<rightarrow> b\<close> (\<open>isConnected a b\<close>) with \<open>a\<close> reachable
  from some source (then \<open>b\<close> is reachable as well): \<open>a\<close> occurs before \<open>b\<close> in
  \<open>topologicalSort(false)\<close> and after \<open>b\<close> in \<open>topologicalSort(true)\<close>. Both results
  are without repetition, so the positions are unique.
\<close>

theorem topologicalSort_respects_edges:
  assumes "graph_state g" and "\<forall>x\<in>reach g. (x, x) \<notin> (edges g)\<^sup>+"
    and "length (nodes g) \<le> depth"
    and "isConnected a b g" and "snd (nodeMap_at g a) \<in> reach g"
  shows "(\<exists>r. topologicalSort depth g False = Some r \<and> distinct r \<and>
              precedes a b r \<and> \<not> precedes b a r) \<and>
         (\<exists>r. topologicalSort depth g True = Some r \<and> distinct r \<and>
              precedes b a r \<and> \<not> precedes a b r)"
proof -
  have inv: "graph_inv g" using assms(1) by (rule graph_state_inv)
  let ?f = "\<lambda>i. nodes g ! i"
  obtain pa i pb j where ab: "nodeMap g a = Some (pa, i)" "nodeMap g b = Some (pb, j)"
    "j \<in> set (adjList g i)"
    using assms(4) by (auto simp: isConnected_def nodeMap_at_def split: if_splits)
  have ir: "i \<in> reach g" using assms(5) ab(1) by (simp add: nodeMap_at_def)
  have e: "(i, j) \<in> edges g" using ab(3) by (simp add: edges_def)
  have nc: "(j, i) \<notin> (edges g)\<^sup>*"
  proof
    assume "(j, i) \<in> (edges g)\<^sup>*"
    then have "(i, i) \<in> (edges g)\<^sup>+" using e by (simp add: rtrancl_into_trancl2)
    then show False using assms(2) ir by blast
  qed
  have v: "?f i = a" "?f j = b" using inv_id_nth[OF inv] ab by simp_all
  have pre: "\<And>ids. distinct ids \<Longrightarrow> set ids = reach g \<Longrightarrow> post_ordered (edges g) {} ids \<Longrightarrow>
      distinct (map ?f ids) \<and> precedes b a (map ?f ids)"
  proof -
    fix ids assume i: "distinct ids" "set ids = reach g" "post_ordered (edges g) {} ids"
    have "precedes j i ids"
      using post_ordered_precedes[OF i(3) _ e nc] ir i(2) by simp
    then have "precedes (?f j) (?f i) (map ?f ids)" by (rule precedes_map)
    moreover have "distinct (map ?f ids)"
      using inv_distinct_values[OF inv i(1)] i(2) inv_reach_bound[OF inv] by simp
    ultimately show "distinct (map ?f ids) \<and> precedes b a (map ?f ids)" using v by simp
  qed
  obtain ids1 where i1: "topologicalSort depth g False = Some (rev (map ?f ids1))"
    "distinct ids1" "set ids1 = reach g" "post_ordered (edges g) {} ids1"
    using topologicalSort_ids[OF inv assms(3), of False] by auto
  obtain ids2 where i2: "topologicalSort depth g True = Some (map ?f ids2)"
    "distinct ids2" "set ids2 = reach g" "post_ordered (edges g) {} ids2"
    using topologicalSort_ids[OF inv assms(3), of True] by auto
  have 1: "distinct (rev (map ?f ids1))" "precedes a b (rev (map ?f ids1))"
    using pre[OF i1(2,3,4)] by (simp_all add: precedes_rev)
  have 2: "distinct (map ?f ids2)" "precedes b a (map ?f ids2)"
    using pre[OF i2(2,3,4)] by simp_all
  show ?thesis
    using i1(1) i2(1) 1 2 precedes_asym[OF 1(1) 1(2)] precedes_asym[OF 2(1) 2(2)] by simp
qed

theorem topologicalSort_respects_edges_witness:
  "graph_state (addEdge 2 3 (addEdge 1 3 (addEdge 1 2 (addNode (1::nat) True empty_graph)))) \<and>
   edges (addEdge 2 3 (addEdge 1 3 (addEdge 1 2 (addNode (1::nat) True empty_graph))))
     \<subseteq> {(x, y). x < y} \<and>
   length (nodes (addEdge 2 3 (addEdge 1 3 (addEdge 1 2 (addNode (1::nat) True empty_graph))))) \<le> 3 \<and>
   isConnected 1 3 (addEdge 2 3 (addEdge 1 3 (addEdge 1 2 (addNode (1::nat) True empty_graph)))) \<and>
   snd (nodeMap_at (addEdge 2 3 (addEdge 1 3 (addEdge 1 2 (addNode (1::nat) True empty_graph)))) 1)
     \<in> reach (addEdge 2 3 (addEdge 1 3 (addEdge 1 2 (addNode (1::nat) True empty_graph)))) \<and>
   topologicalSort 3 (addEdge 2 3 (addEdge 1 3 (addEdge 1 2 (addNode (1::nat) True empty_graph)))) False
     = Some [1, 2, 3] \<and>
   (\<exists>r. topologicalSort 3 (addEdge 2 3 (addEdge 1 3 (addEdge 1 2 (addNode (1::nat) True empty_graph)))) False
        = Some r \<and> precedes 1 3 r)"
proof -
  let ?g = "addEdge 2 3 (addEdge 1 3 (addEdge 1 2 (addNode (1::nat) True empty_graph)))"
  have h: "graph_state ?g"
    by (intro gs_addEdge gs_addNode gs_empty)
  have o: "edges ?g \<subseteq> {(x, y). x < y}"
    by (auto simp: edges_def graph_eval split: if_splits)
  then have "(edges ?g)\<^sup>+ \<subseteq> {(x, y). x < y}\<^sup>+" by (rule trancl_mono_subset)
  moreover have "trans {(x::nat, y). x < y}" by (auto simp: trans_def)
  ultimately have "(edges ?g)\<^sup>+ \<subseteq> {(x, y). x < y}" by (simp add: trancl_id)
  then have c: "\<forall>x\<in>reach ?g. (x, x) \<notin> (edges ?g)\<^sup>+" by auto
  have l: "length (nodes ?g) \<le> 3" by (simp add: graph_eval)
  have k: "isConnected 1 3 ?g" by (simp add: graph_eval)
  have "snd (nodeMap_at ?g 1) \<in> set (sources ?g)" by (simp add: graph_eval)
  then have s: "snd (nodeMap_at ?g 1) \<in> reach ?g" by (auto simp: reach_def)
  have e: "topologicalSort 3 ?g False = Some [1, 2, 3]"
    by (simp add: graph_eval topologicalSort_def eval_nat_numeral)
  show ?thesis
    using h o l k s e topologicalSort_respects_edges[OF h c l k s] by auto
qed

subsection \<open>The scenario of \<open>test/Misc/Graph.C\<close>\<close>

text \<open>
  The test builds the chain \<open>node0 \<rightarrow> \<dots> \<rightarrow> node6\<close> with \<open>node0\<close> as source, adds
  \<open>node0 \<rightarrow> node3\<close> and \<open>node4 \<rightarrow> node0\<close>, removes \<open>node4\<close> (this is \<open>test_graph\<close>) and
  prunes. It expects the nodes \<open>node0, \<dots>, node3\<close> and the edges \<open>0 \<rightarrow> 1\<close>, \<open>0 \<rightarrow> 3\<close>,
  \<open>1 \<rightarrow> 2\<close>, \<open>2 \<rightarrow> 3\<close>. The model gives the same.
\<close>

lemma test_scenario:
  "\<exists>g. removeNonReachable [0, 1, 2, 3, 4, 5, 6] test_graph = Some g \<and>
       getNodes g = [0, 1, 2, 3] \<and>
       map (adjList g) [0, 1, 2, 3, 4, 5, 6] = [[1, 3], [2], [3], [], [], [], []] \<and>
       sources g = [0] \<and>
       topologicalSort 7 g False = Some [0, 1, 2, 3]"
  by (simp add: test_graph_def graph_eval removeNonReachable_def reach_loop.simps
      push_unvisited_def remove_unvisited_def topologicalSort_def eval_nat_numeral)

end
